theory Spec2Isabelle
  imports Complex_Main
begin

section \<open>Optimal binary search trees by dynamic programming (obst_completo.py)\<close>

text \<open>
  The development embeds the Python script \<^verbatim>\<open>obst_completo.py\<close>: the validator
  \<^verbatim>\<open>validate_probabilities\<close>, the table builder \<^verbatim>\<open>optimal_bst\<close>, the three traversal
  functions and the pipeline of \<^verbatim>\<open>main\<close>.

  Numbers. Python floats are idealised as exact reals. The only non-finite float the
  code itself creates is the sentinel \<^verbatim>\<open>float("inf")\<close>; a table cell is therefore a value
  of type \<open>fl\<close>, a real or plus infinity. Rounding, overflow and NaN are outside the model.

  Errors. Every \<^verbatim>\<open>raise\<close> and every failing index or arithmetic operation of the source
  is a value \<open>Inl err\<close> of a sum type.
\<close>

subsection \<open>Errors and numbers\<close>

datatype value_msg = QLengthMismatch | NegativeProbability | SumNotOne | KeysLengthMismatch

datatype error = ValueError value_msg | IndexError | TypeError | ZeroDivisionError

datatype fl = Fin real | PInf

fun fl_add :: "fl \<Rightarrow> fl \<Rightarrow> fl" where
  "fl_add (Fin a) (Fin b) = Fin (a + b)"
| "fl_add _ _ = PInf"

fun fl_less :: "fl \<Rightarrow> fl \<Rightarrow> bool" where
  "fl_less (Fin a) (Fin b) = (a < b)"
| "fl_less (Fin a) PInf = True"
| "fl_less PInf _ = False"

subsection \<open>validate_probabilities\<close>

text \<open>
  The three checks of the source, in its order; each raises \<^verbatim>\<open>ValueError\<close> with its own
  message. \<^verbatim>\<open>p + q\<close> is list concatenation and builds a new list.
\<close>

definition validate_probabilities :: "real list \<Rightarrow> real list \<Rightarrow> error + unit" where
  "validate_probabilities p q =
     (if length q \<noteq> length p + 1 then Inl (ValueError QLengthMismatch)
      else if list_ex (\<lambda>x. x < 0) (p @ q) then Inl (ValueError NegativeProbability)
      else
        let s = sum_list p + sum_list q
        in if \<bar>s - 1\<bar> > 1 / 10 ^ 6 then Inl (ValueError SumNotOne) else Inr ())"

subsection \<open>Tables\<close>

text \<open>
  \<^verbatim>\<open>[[v]*(n+2) for _ in range(n+2)]\<close> is a list of \<open>n + 2\<close> distinct rows, so an
  assignment \<^verbatim>\<open>t[i][j] = v\<close> changes one cell. Inside \<^verbatim>\<open>optimal_bst\<close> every index of a
  table lies in \<open>0..n+1\<close> (lemmas \<open>tget_tset\<close> and \<open>dp_inv\<close> below carry the sizes), so
  reads and writes there are plain \<open>!\<close> and list update.
\<close>

type_synonym 'a table = "'a list list"

definition new_table :: "nat \<Rightarrow> 'a \<Rightarrow> 'a table" where
  "new_table m v = replicate m (replicate m v)"

definition tget :: "'a table \<Rightarrow> nat \<Rightarrow> nat \<Rightarrow> 'a" where
  "tget t i j = t ! i ! j"

definition tset :: "'a table \<Rightarrow> nat \<Rightarrow> nat \<Rightarrow> 'a \<Rightarrow> 'a table" where
  "tset t i j v = t[i := (t ! i)[j := v]]"

subsection \<open>optimal_bst\<close>

text \<open>The first loop: \<^verbatim>\<open>for i in range(1, n+2): e[i][i-1] = q[i-1]; w[i][i-1] = q[i-1]\<close>.\<close>

definition init_base :: "real list \<Rightarrow> nat \<Rightarrow> fl table \<times> fl table \<Rightarrow> fl table \<times> fl table" where
  "init_base q n =
     fold (\<lambda>i (e, w). (tset e i (i - 1) (Fin (q ! (i - 1))), tset w i (i - 1) (Fin (q ! (i - 1)))))
       [1..<n + 2]"

text \<open>\<^verbatim>\<open>custo = e[i][r-1] + e[r+1][j] + w[i][j]\<close>\<close>

definition custo :: "fl table \<Rightarrow> fl table \<Rightarrow> nat \<Rightarrow> nat \<Rightarrow> nat \<Rightarrow> fl" where
  "custo e w i j r = fl_add (fl_add (tget e i (r - 1)) (tget e (r + 1) j)) (tget w i j)"

text \<open>
  One iteration of \<^verbatim>\<open>for r in range(i, j+1)\<close> on the pair
  \<^verbatim>\<open>(melhor_r, melhor_custo)\<close>; \<^verbatim>\<open>melhor_r\<close> starts as \<^verbatim>\<open>None\<close>.
\<close>

definition root_step ::
  "fl table \<Rightarrow> fl table \<Rightarrow> nat \<Rightarrow> nat \<Rightarrow> nat \<Rightarrow> int option \<times> fl \<Rightarrow> int option \<times> fl" where
  "root_step e w i j r = (\<lambda>(melhor_r, melhor_custo).
     if fl_less (custo e w i j r) melhor_custo then (Some (int r), custo e w i j r)
     else (melhor_r, melhor_custo))"

definition best_root :: "fl table \<Rightarrow> fl table \<Rightarrow> nat \<Rightarrow> nat \<Rightarrow> int option \<times> fl" where
  "best_root e w i j = fold (root_step e w i j) [i..<j + 1] (None, PInf)"

text \<open>The body of the loop over \<open>i\<close>, for the interval \<open>[i, j]\<close> with \<open>j = i + L - 1\<close>.\<close>

definition fill_interval ::
  "real list \<Rightarrow> real list \<Rightarrow> nat \<Rightarrow> nat \<Rightarrow>
   fl table \<times> fl table \<times> int option table \<Rightarrow> fl table \<times> fl table \<times> int option table" where
  "fill_interval p q L i = (\<lambda>(e, w, root_tab).
     let j = i + L - 1;
         e1 = tset e i j PInf;
         w1 = tset w i j (fl_add (fl_add (tget w i (j - 1)) (Fin (p ! (j - 1)))) (Fin (q ! j)));
         (melhor_r, melhor_custo) = best_root e1 w1 i j
     in (tset e1 i j melhor_custo, w1, tset root_tab i j melhor_r))"

text \<open>\<^verbatim>\<open>for i in range(1, n-L+2)\<close>: here \<open>L \<le> n\<close>, so \<open>n - L\<close> is the integer difference.\<close>

definition fill_length ::
  "real list \<Rightarrow> real list \<Rightarrow> nat \<Rightarrow> nat \<Rightarrow>
   fl table \<times> fl table \<times> int option table \<Rightarrow> fl table \<times> fl table \<times> int option table" where
  "fill_length p q n L = fold (fill_interval p q L) [1..<n - L + 2]"

text \<open>
  \<^verbatim>\<open>optimal_bst\<close> raises \<^verbatim>\<open>ValueError\<close> when \<^verbatim>\<open>len(keys) != n\<close>. It never checks
  \<^verbatim>\<open>len(q)\<close>: the first loop reads \<^verbatim>\<open>q[0], ..., q[n]\<close> in this order before anything else
  can fail, so it raises \<^verbatim>\<open>IndexError\<close> exactly when \<^verbatim>\<open>len(q) < n + 1\<close>; the later reads
  \<^verbatim>\<open>p[j-1]\<close> and \<^verbatim>\<open>q[j]\<close> have \<open>1 \<le> j \<le> n\<close>. Entries of \<open>q\<close> beyond index \<open>n\<close> are ignored.
\<close>

definition optimal_bst ::
  "real list \<Rightarrow> real list \<Rightarrow> 'k list \<Rightarrow> error + fl table \<times> fl table \<times> int option table" where
  "optimal_bst p q keys =
     (let n = length p in
      if length keys \<noteq> n then Inl (ValueError KeysLengthMismatch)
      else if length q < n + 1 then Inl IndexError
      else
        let (e, w) = init_base q n (new_table (n + 2) (Fin 0), new_table (n + 2) (Fin 0));
            root_tab = new_table (n + 2) (Some 0)
        in Inr (fold (fill_length p q n) [1..<n + 1] (e, w, root_tab)))"

subsection \<open>Traversals derived from the root table\<close>

text \<open>
  The traversal functions take any table, any key list and any integers, so their
  indexing is Python's: a negative index counts from the end, an index out of range
  raises \<^verbatim>\<open>IndexError\<close>, and \<^verbatim>\<open>r - 1\<close> on a cell holding \<^verbatim>\<open>None\<close> raises \<^verbatim>\<open>TypeError\<close>
  (in all three functions \<^verbatim>\<open>r - 1\<close> is the first use of \<open>r\<close>).
\<close>

definition py_index :: "'a list \<Rightarrow> int \<Rightarrow> error + 'a" where
  "py_index xs k =
     (let m = int (length xs) in
      if 0 \<le> k \<and> k < m then Inr (xs ! nat k)
      else if - m \<le> k \<and> k < 0 then Inr (xs ! nat (m + k))
      else Inl IndexError)"

definition root_at :: "int option table \<Rightarrow> int \<Rightarrow> int \<Rightarrow> error + int" where
  "root_at root_tab i j =
     (case py_index root_tab i of
        Inl err \<Rightarrow> Inl err
      | Inr row \<Rightarrow>
          (case py_index row j of
             Inl err \<Rightarrow> Inl err
           | Inr None \<Rightarrow> Inl TypeError
           | Inr (Some r) \<Rightarrow> Inr r))"

text \<open>
  On a table that does not describe a tree the recursion need not end, so the
  functions are partial: \<open>None\<close> is a run that does not return, \<open>Some (Inl err)\<close> a raised
  error, \<open>Some (Inr ks)\<close> the returned list. Operands are evaluated left to right, as in
  the source. Python's bound on the recursion depth is not modelled.
\<close>

partial_function (option) preorder_from_root ::
  "int option table \<Rightarrow> 'k list \<Rightarrow> int \<Rightarrow> int \<Rightarrow> (error + 'k list) option" where
  "preorder_from_root root_tab keys i j =
     (if j < i then Some (Inr [])
      else case root_at root_tab i j of
        Inl err \<Rightarrow> Some (Inl err)
      | Inr r \<Rightarrow>
          (case py_index keys (r - 1) of
             Inl err \<Rightarrow> Some (Inl err)
           | Inr k \<Rightarrow>
               Option.bind (preorder_from_root root_tab keys i (r - 1)) (\<lambda>left.
                 case left of
                   Inl err \<Rightarrow> Some (Inl err)
                 | Inr ls \<Rightarrow>
                     Option.bind (preorder_from_root root_tab keys (r + 1) j) (\<lambda>right.
                       case right of
                         Inl err \<Rightarrow> Some (Inl err)
                       | Inr rs \<Rightarrow> Some (Inr ([k] @ ls @ rs))))))"

partial_function (option) inorder_from_root ::
  "int option table \<Rightarrow> 'k list \<Rightarrow> int \<Rightarrow> int \<Rightarrow> (error + 'k list) option" where
  "inorder_from_root root_tab keys i j =
     (if j < i then Some (Inr [])
      else case root_at root_tab i j of
        Inl err \<Rightarrow> Some (Inl err)
      | Inr r \<Rightarrow>
          Option.bind (inorder_from_root root_tab keys i (r - 1)) (\<lambda>left.
            case left of
              Inl err \<Rightarrow> Some (Inl err)
            | Inr ls \<Rightarrow>
                (case py_index keys (r - 1) of
                   Inl err \<Rightarrow> Some (Inl err)
                 | Inr k \<Rightarrow>
                     Option.bind (inorder_from_root root_tab keys (r + 1) j) (\<lambda>right.
                       case right of
                         Inl err \<Rightarrow> Some (Inl err)
                       | Inr rs \<Rightarrow> Some (Inr (ls @ [k] @ rs))))))"

partial_function (option) postorder_from_root ::
  "int option table \<Rightarrow> 'k list \<Rightarrow> int \<Rightarrow> int \<Rightarrow> (error + 'k list) option" where
  "postorder_from_root root_tab keys i j =
     (if j < i then Some (Inr [])
      else case root_at root_tab i j of
        Inl err \<Rightarrow> Some (Inl err)
      | Inr r \<Rightarrow>
          Option.bind (postorder_from_root root_tab keys i (r - 1)) (\<lambda>left.
            case left of
              Inl err \<Rightarrow> Some (Inl err)
            | Inr ls \<Rightarrow>
                Option.bind (postorder_from_root root_tab keys (r + 1) j) (\<lambda>right.
                  case right of
                    Inl err \<Rightarrow> Some (Inl err)
                  | Inr rs \<Rightarrow>
                      (case py_index keys (r - 1) of
                         Inl err \<Rightarrow> Some (Inl err)
                       | Inr k \<Rightarrow> Some (Inr (ls @ rs @ [k]))))))"

subsection \<open>main\<close>

text \<open>
  \<^verbatim>\<open>round(x, 10)\<close>: over exact numbers, rounding to \<open>nd\<close> decimals with ties to even.
\<close>

definition py_round :: "real \<Rightarrow> nat \<Rightarrow> real" where
  "py_round x nd =
     (let s = 10 ^ nd;
          y = x * s;
          f = \<lfloor>y\<rfloor>;
          d = y - of_int f
      in of_int (if d < 1 / 2 then f else if 1 / 2 < d then f + 1
                 else if even f then f else f + 1) / s)"

text \<open>
  The rescaling step of \<^verbatim>\<open>main\<close>; \<^verbatim>\<open>1.0 / total\<close> raises \<^verbatim>\<open>ZeroDivisionError\<close> when the
  total is zero.
\<close>

definition normalize :: "real list \<Rightarrow> real list \<Rightarrow> error + real list \<times> real list" where
  "normalize p q =
     (let total = sum_list p + sum_list q in
      if \<bar>total - 1\<bar> > 1 / 10 ^ 9 then
        (if total = 0 then Inl ZeroDivisionError
         else
           let esc = 1 / total
           in Inr (map (\<lambda>x. py_round (x * esc) 10) p, map (\<lambda>x. py_round (x * esc) 10) q))
      else Inr (p, q))"

text \<open>
  What a run of \<^verbatim>\<open>main\<close> computes and prints: the cost \<^verbatim>\<open>e[1][n]\<close>, the root table and
  the three traversals. The text layout of the output is not modelled.
\<close>

record 'k report =
  cost_dp :: fl
  roots :: "int option table"
  pre_order :: "'k list"
  in_order :: "'k list"
  post_order :: "'k list"

definition run_main :: "'k list \<Rightarrow> real list \<Rightarrow> real list \<Rightarrow> (error + 'k report) option" where
  "run_main keys p0 q0 =
     (case normalize p0 q0 of
        Inl err \<Rightarrow> Some (Inl err)
      | Inr (p, q) \<Rightarrow>
          (case validate_probabilities p q of
             Inl err \<Rightarrow> Some (Inl err)
           | Inr _ \<Rightarrow>
               (case optimal_bst p q keys of
                  Inl err \<Rightarrow> Some (Inl err)
                | Inr (e, w, root_tab) \<Rightarrow>
                    let n = length keys in
                    Option.bind (preorder_from_root root_tab keys 1 (int n)) (\<lambda>r1.
                    case r1 of Inl err \<Rightarrow> Some (Inl err) | Inr pre \<Rightarrow>
                    Option.bind (inorder_from_root root_tab keys 1 (int n)) (\<lambda>r2.
                    case r2 of Inl err \<Rightarrow> Some (Inl err) | Inr ino \<Rightarrow>
                    Option.bind (postorder_from_root root_tab keys 1 (int n)) (\<lambda>r3.
                    case r3 of Inl err \<Rightarrow> Some (Inl err) | Inr post \<Rightarrow>
                      Some (Inr \<lparr>cost_dp = tget e 1 n, roots = root_tab, pre_order = pre,
                                 in_order = ino, post_order = post\<rparr>)))))))"

definition example_keys :: "string list" where
  "example_keys = [''Ana'', ''Bruno'', ''Carla'', ''Diego'']"

definition example_p :: "real list" where
  "example_p = [35 / 100, 25 / 100, 25 / 100, 15 / 100]"

definition example_q :: "real list" where
  "example_q = [2 / 100, 2 / 100, 2 / 100, 2 / 100, 2 / 100]"

definition main :: "(error + string report) option" where
  "main = run_main example_keys example_p example_q"

subsection \<open>Specification-level notions\<close>

text \<open>
  The closed form of the weight of an interval, in the words of the specification:
  the sum of \<open>p\<close> over the keys \<open>i..j\<close> (key \<open>k\<close> is \<open>p[k-1]\<close>) plus the sum of \<open>q\<close> over the
  gaps \<open>i-1..j\<close>.
\<close>

definition weight_sum :: "real list \<Rightarrow> real list \<Rightarrow> nat \<Rightarrow> nat \<Rightarrow> real" where
  "weight_sum p q i j = (\<Sum>k = i..j. p ! (k - 1)) + (\<Sum>g = i - 1..j. q ! g)"

text \<open>
  The recurrence of the dynamic programme as a mathematical function of the interval,
  independent of any table. Key indices start at 1; the guard \<open>i = 0\<close> only makes the
  recursion well-founded on all naturals.
\<close>

function opt_cost :: "real list \<Rightarrow> real list \<Rightarrow> nat \<Rightarrow> nat \<Rightarrow> real" where
  "opt_cost p q i j =
     (if j < i \<or> i = 0 then q ! (i - 1)
      else Min ((\<lambda>r. opt_cost p q i (r - 1) + opt_cost p q (r + 1) j + weight_sum p q i j) ` {i..j}))"
  by pat_completeness auto
termination
  by (relation "measure (\<lambda>(p, q, i, j). j + 1 - i)") auto

definition cand :: "real list \<Rightarrow> real list \<Rightarrow> nat \<Rightarrow> nat \<Rightarrow> nat \<Rightarrow> real" where
  "cand p q i j r = opt_cost p q i (r - 1) + opt_cost p q (r + 1) j + weight_sum p q i j"

definition opt_root :: "real list \<Rightarrow> real list \<Rightarrow> nat \<Rightarrow> nat \<Rightarrow> nat" where
  "opt_root p q i j = (LEAST r. i \<le> r \<and> r \<le> j \<and> cand p q i j r = opt_cost p q i j)"

text \<open>
  Binary search trees over key indices, with the gaps as leaves. \<open>is_bst i j t\<close>: the
  tree \<open>t\<close> holds exactly the keys \<open>i..j\<close> in search-tree order, and its leaves are the
  gaps \<open>i-1..j\<close> from left to right.
\<close>

datatype bst = Gap nat | Key bst nat bst

fun is_bst :: "nat \<Rightarrow> nat \<Rightarrow> bst \<Rightarrow> bool" where
  "is_bst i j (Gap g) = (i = j + 1 \<and> g = j)"
| "is_bst i j (Key l k r) = (i \<le> k \<and> k \<le> j \<and> is_bst i (k - 1) l \<and> is_bst (k + 1) j r)"

fun inorder_keys :: "bst \<Rightarrow> nat list" where
  "inorder_keys (Gap g) = []"
| "inorder_keys (Key l k r) = inorder_keys l @ [k] @ inorder_keys r"

fun inorder_gaps :: "bst \<Rightarrow> nat list" where
  "inorder_gaps (Gap g) = [g]"
| "inorder_gaps (Key l k r) = inorder_gaps l @ inorder_gaps r"

text \<open>
  The expected search cost of a tree, by depth (the root has depth 0): a key at depth
  \<open>d\<close> costs \<open>p * (d + 1)\<close> and a gap leaf at depth \<open>d\<close> costs \<open>q * (d + 1)\<close>.
\<close>

fun cost_at :: "real list \<Rightarrow> real list \<Rightarrow> nat \<Rightarrow> bst \<Rightarrow> real" where
  "cost_at p q d (Gap g) = q ! g * (real d + 1)"
| "cost_at p q d (Key l k r) =
     p ! (k - 1) * (real d + 1) + cost_at p q (d + 1) l + cost_at p q (d + 1) r"

definition expected_cost :: "real list \<Rightarrow> real list \<Rightarrow> bst \<Rightarrow> real" where
  "expected_cost p q t = cost_at p q 0 t"

text \<open>
  The same sum with a gap leaf at depth \<open>d\<close> counted as \<open>q * d\<close>: keys as
  \<open>p[k] * (depth(k) + 1)\<close>, gaps as \<open>q[g] * depth(g)\<close>.
\<close>

fun gap_depth_cost_at :: "real list \<Rightarrow> real list \<Rightarrow> nat \<Rightarrow> bst \<Rightarrow> real" where
  "gap_depth_cost_at p q d (Gap g) = q ! g * real d"
| "gap_depth_cost_at p q d (Key l k r) =
     p ! (k - 1) * (real d + 1) + gap_depth_cost_at p q (d + 1) l + gap_depth_cost_at p q (d + 1) r"

definition gap_depth_cost :: "real list \<Rightarrow> real list \<Rightarrow> bst \<Rightarrow> real" where
  "gap_depth_cost p q t = gap_depth_cost_at p q 0 t"

fun tweight :: "real list \<Rightarrow> real list \<Rightarrow> bst \<Rightarrow> real" where
  "tweight p q (Gap g) = q ! g"
| "tweight p q (Key l k r) = tweight p q l + p ! (k - 1) + tweight p q r"

subsection \<open>Invariants of the table builder\<close>

definition wf_table :: "nat \<Rightarrow> 'a table \<Rightarrow> bool" where
  "wf_table m t \<longleftrightarrow> length t = m \<and> (\<forall>row \<in> set t. length row = m)"

text \<open>
  After all intervals shorter than \<open>L\<close>, and those of length \<open>L\<close> starting before \<open>i\<close>,
  have been filled: each such cell holds the value of the recurrence, every other
  cell of the root table still holds its initial 0.
\<close>

definition filled :: "nat \<Rightarrow> nat \<Rightarrow> nat \<Rightarrow> nat \<Rightarrow> nat \<Rightarrow> bool" where
  "filled n L i a b \<longleftrightarrow>
     1 \<le> a \<and> a \<le> b + 1 \<and> b \<le> n \<and> (b + 1 - a < L \<or> (b + 1 - a = L \<and> a < i))"

definition dp_inv ::
  "real list \<Rightarrow> real list \<Rightarrow> nat \<Rightarrow> nat \<Rightarrow> nat \<Rightarrow>
   fl table \<times> fl table \<times> int option table \<Rightarrow> bool" where
  "dp_inv p q n L i = (\<lambda>(e, w, root_tab).
     wf_table (n + 2) e \<and> wf_table (n + 2) w \<and> wf_table (n + 2) root_tab \<and>
     (\<forall>a b. filled n L i a b \<longrightarrow>
        tget e a b = Fin (opt_cost p q a b) \<and> tget w a b = Fin (weight_sum p q a b)) \<and>
     (\<forall>a b. a < n + 2 \<and> b < n + 2 \<longrightarrow>
        tget root_tab a b =
          (if filled n L i a b \<and> a \<le> b then Some (int (opt_root p q a b)) else Some 0)))"

text \<open>A root table describes a tree on the keys \<open>1..n\<close>: every root lies in its interval.\<close>

definition roots_in_range :: "nat \<Rightarrow> int option table \<Rightarrow> bool" where
  "roots_in_range n root_tab \<longleftrightarrow>
     (\<forall>a b. 1 \<le> a \<and> a \<le> b \<and> b \<le> n \<longrightarrow>
        (\<exists>r. root_at root_tab (int a) (int b) = Inr (int r) \<and> a \<le> r \<and> r \<le> b))"

section \<open>Correctness of the table builder\<close>

subsection \<open>Tables\<close>

lemma wf_new_table: "wf_table m (new_table m v)"
  by (simp add: wf_table_def new_table_def)

lemma wf_tset: "wf_table m t \<Longrightarrow> wf_table m (tset t i j v)"
proof -
  assume wf: "wf_table m t"
  show ?thesis
  proof (cases "i < length t")
    case True
    then have "t ! i \<in> set t" by simp
    with wf have "length ((t ! i)[j := v]) = m" by (simp add: wf_table_def)
    moreover have "set (t[i := (t ! i)[j := v]]) \<subseteq> insert ((t ! i)[j := v]) (set t)"
      by (rule set_update_subset_insert)
    ultimately show ?thesis using wf by (auto simp: wf_table_def tset_def)
  next
    case False
    then have "t[i := (t ! i)[j := v]] = t" by (simp add: list_update_beyond)
    then show ?thesis using wf by (simp add: tset_def)
  qed
qed

lemma tget_tset:
  assumes "wf_table m t" "i < m" "j < m"
  shows "tget (tset t i j v) a b = (if a = i \<and> b = j then v else tget t a b)"
proof -
  from assms have len: "i < length t" and row: "j < length (t ! i)"
    by (auto simp: wf_table_def)
  show ?thesis
  proof (cases "a = i")
    case True
    with len row show ?thesis by (simp add: tget_def tset_def nth_list_update)
  next
    case False
    then show ?thesis by (simp add: tget_def tset_def)
  qed
qed

lemma tget_new_table: "a < m \<Longrightarrow> b < m \<Longrightarrow> tget (new_table m v) a b = v"
  by (simp add: tget_def new_table_def)

subsection \<open>Loops over a range\<close>

lemma fold_upt_invariant:
  assumes "a \<le> b" and "P a s"
    and "\<And>k t. a \<le> k \<Longrightarrow> k < b \<Longrightarrow> P k t \<Longrightarrow> P (Suc k) (f k t)"
  shows "P b (fold f [a..<b] s)"
  using assms(1) assms(3)
proof (induction b rule: dec_induct)
  case base
  then show ?case using assms(2) by simp
next
  case (step n)
  have "P n (fold f [a..<n] s)"
    by (rule step.IH) (use step.prems step.hyps in auto)
  then have "P (Suc n) (f n (fold f [a..<n] s))"
    using step.prems step.hyps by simp
  then show ?case using step.hyps by simp
qed

subsection \<open>Weights\<close>

lemma weight_sum_empty: "1 \<le> i \<Longrightarrow> weight_sum p q i (i - 1) = q ! (i - 1)"
  by (simp add: weight_sum_def)

lemma weight_sum_extend:
  assumes "1 \<le> i" "i \<le> j"
  shows "weight_sum p q i j = weight_sum p q i (j - 1) + p ! (j - 1) + q ! j"
proof -
  obtain j' where j: "j = Suc j'" using assms by (cases j) auto
  have "(\<Sum>k = i..Suc j'. p ! (k - 1)) = (\<Sum>k = i..j'. p ! (k - 1)) + p ! j'"
    using assms j by (simp add: sum.nat_ivl_Suc')
  moreover have "(\<Sum>g = i - 1..Suc j'. q ! g) = (\<Sum>g = i - 1..j'. q ! g) + q ! Suc j'"
  proof -
    have "i - 1 \<le> Suc j'" using assms j by simp
    then show ?thesis by (simp add: sum.nat_ivl_Suc')
  qed
  ultimately show ?thesis by (simp add: weight_sum_def j)
qed

lemma weight_sum_split:
  assumes "1 \<le> i" "i \<le> k" "k \<le> j"
  shows "weight_sum p q i j = weight_sum p q i (k - 1) + p ! (k - 1) + weight_sum p q (k + 1) j"
  using assms(3,1,2)
proof (induction j rule: dec_induct)
  case base
  then show ?case using weight_sum_extend [of i k p q]
    by (simp add: weight_sum_def)
next
  case (step n)
  have "weight_sum p q i (Suc n) = weight_sum p q i n + p ! n + q ! Suc n"
    using weight_sum_extend [of i "Suc n" p q] step by simp
  moreover have "weight_sum p q (k + 1) (Suc n) = weight_sum p q (k + 1) n + p ! n + q ! Suc n"
    using weight_sum_extend [of "k + 1" "Suc n" p q] step by simp
  ultimately show ?case using step by simp
qed

subsection \<open>The recurrence and its leftmost minimiser\<close>

declare opt_cost.simps [simp del]

lemma opt_cost_empty: "1 \<le> i \<Longrightarrow> opt_cost p q i (i - 1) = q ! (i - 1)"
  by (subst opt_cost.simps) simp

lemma opt_cost_Min: "1 \<le> i \<Longrightarrow> i \<le> j \<Longrightarrow> opt_cost p q i j = Min (cand p q i j ` {i..j})"
  by (subst opt_cost.simps) (simp add: cand_def [abs_def])

lemma opt_cost_le_cand:
  assumes "1 \<le> i" "i \<le> r" "r \<le> j"
  shows "opt_cost p q i j \<le> cand p q i j r"
proof -
  have "Min (cand p q i j ` {i..j}) \<le> cand p q i j r"
    using assms by (intro Min_le) auto
  then show ?thesis using assms by (simp add: opt_cost_Min)
qed

lemma opt_root_props:
  assumes "1 \<le> i" "i \<le> j"
  shows "i \<le> opt_root p q i j" and "opt_root p q i j \<le> j"
    and "cand p q i j (opt_root p q i j) = opt_cost p q i j"
    and "\<And>r'. i \<le> r' \<Longrightarrow> r' < opt_root p q i j \<Longrightarrow> opt_cost p q i j < cand p q i j r'"
proof -
  let ?P = "\<lambda>r. i \<le> r \<and> r \<le> j \<and> cand p q i j r = opt_cost p q i j"
  have "Min (cand p q i j ` {i..j}) \<in> cand p q i j ` {i..j}"
    using assms by (intro Min_in) auto
  then obtain r where "r \<in> {i..j}" "cand p q i j r = Min (cand p q i j ` {i..j})"
    by (auto simp: image_iff)
  then have ex: "?P r" using assms by (simp add: opt_cost_Min)
  have least: "?P (opt_root p q i j)"
    unfolding opt_root_def using ex by (rule LeastI)
  then show "i \<le> opt_root p q i j" "opt_root p q i j \<le> j"
    "cand p q i j (opt_root p q i j) = opt_cost p q i j" by simp_all
  fix r' assume r': "i \<le> r'" "r' < opt_root p q i j"
  then have "\<not> ?P r'" unfolding opt_root_def by (auto dest: not_less_Least)
  moreover have "r' \<le> j" using r' least by simp
  moreover have "opt_cost p q i j \<le> cand p q i j r'"
    using assms r' \<open>r' \<le> j\<close> by (intro opt_cost_le_cand) auto
  ultimately show "opt_cost p q i j < cand p q i j r'" using r' by simp
qed

lemma opt_root_unique:
  assumes "1 \<le> i" "i \<le> r" "r \<le> j"
    and le: "\<And>r'. i \<le> r' \<Longrightarrow> r' \<le> j \<Longrightarrow> cand p q i j r \<le> cand p q i j r'"
    and less: "\<And>r'. i \<le> r' \<Longrightarrow> r' < r \<Longrightarrow> cand p q i j r < cand p q i j r'"
  shows "opt_cost p q i j = cand p q i j r" and "opt_root p q i j = r"
proof -
  have "Min (cand p q i j ` {i..j}) = cand p q i j r"
    using assms(1-3) le by (intro Min_eqI) auto
  then show c: "opt_cost p q i j = cand p q i j r" using assms(1-3) by (simp add: opt_cost_Min)
  show "opt_root p q i j = r"
    unfolding opt_root_def
  proof (rule Least_equality)
    show "i \<le> r \<and> r \<le> j \<and> cand p q i j r = opt_cost p q i j"
      using assms(2,3) c by simp
  next
    fix y assume y: "i \<le> y \<and> y \<le> j \<and> cand p q i j y = opt_cost p q i j"
    show "r \<le> y"
    proof (rule ccontr)
      assume "\<not> r \<le> y"
      then have "cand p q i j r < cand p q i j y" using y by (intro less) auto
      with y c show False by simp
    qed
  qed
qed

subsection \<open>The scan over candidate roots\<close>

lemma best_root_scan:
  assumes "i \<le> k" and fin: "\<And>r. i \<le> r \<Longrightarrow> r \<le> k \<Longrightarrow> custo e w i j r = Fin (c r)"
  shows "\<exists>r. i \<le> r \<and> r \<le> k
      \<and> fold (root_step e w i j) [i..<Suc k] (None, PInf) = (Some (int r), Fin (c r))
      \<and> (\<forall>r'. i \<le> r' \<and> r' \<le> k \<longrightarrow> c r \<le> c r')
      \<and> (\<forall>r'. i \<le> r' \<and> r' < r \<longrightarrow> c r < c r')"
  using assms
proof (induction k rule: dec_induct)
  case base
  have "custo e w i j i = Fin (c i)" using base by simp
  then have "fold (root_step e w i j) [i..<Suc i] (None, PInf) = (Some (int i), Fin (c i))"
    by (simp add: root_step_def)
  then show ?case by auto
next
  case (step n)
  have "\<exists>r. i \<le> r \<and> r \<le> n
      \<and> fold (root_step e w i j) [i..<Suc n] (None, PInf) = (Some (int r), Fin (c r))
      \<and> (\<forall>r'. i \<le> r' \<and> r' \<le> n \<longrightarrow> c r \<le> c r')
      \<and> (\<forall>r'. i \<le> r' \<and> r' < r \<longrightarrow> c r < c r')"
    by (rule step.IH) (use step.prems in auto)
  then obtain r where r: "i \<le> r" "r \<le> n"
    and f: "fold (root_step e w i j) [i..<Suc n] (None, PInf) = (Some (int r), Fin (c r))"
    and le: "\<And>r'. i \<le> r' \<Longrightarrow> r' \<le> n \<Longrightarrow> c r \<le> c r'"
    and less: "\<And>r'. i \<le> r' \<Longrightarrow> r' < r \<Longrightarrow> c r < c r'"
    by blast
  have cs: "custo e w i j (Suc n) = Fin (c (Suc n))" using step by simp
  have unfold: "fold (root_step e w i j) [i..<Suc (Suc n)] (None, PInf)
      = root_step e w i j (Suc n) (Some (int r), Fin (c r))"
    using step.hyps f by simp
  show ?case
  proof (cases "c (Suc n) < c r")
    case True
    have "fold (root_step e w i j) [i..<Suc (Suc n)] (None, PInf)
        = (Some (int (Suc n)), Fin (c (Suc n)))"
      unfolding unfold using True cs by (simp add: root_step_def)
    moreover have "\<forall>r'. i \<le> r' \<and> r' \<le> Suc n \<longrightarrow> c (Suc n) \<le> c r'"
    proof (intro allI impI)
      fix r' assume "i \<le> r' \<and> r' \<le> Suc n"
      then consider "r' = Suc n" | "i \<le> r'" "r' \<le> n" by linarith
      then show "c (Suc n) \<le> c r'"
      proof cases
        case 1 then show ?thesis by simp
      next
        case 2 then have "c r \<le> c r'" by (rule le)
        with True show ?thesis by simp
      qed
    qed
    moreover have "\<forall>r'. i \<le> r' \<and> r' < Suc n \<longrightarrow> c (Suc n) < c r'"
    proof (intro allI impI)
      fix r' assume "i \<le> r' \<and> r' < Suc n"
      then have "c r \<le> c r'" by (intro le) auto
      with True show "c (Suc n) < c r'" by simp
    qed
    ultimately show ?thesis using step.hyps by (intro exI [of _ "Suc n"]) simp
  next
    case False
    have "fold (root_step e w i j) [i..<Suc (Suc n)] (None, PInf) = (Some (int r), Fin (c r))"
      unfolding unfold using False cs by (simp add: root_step_def)
    moreover have "\<forall>r'. i \<le> r' \<and> r' \<le> Suc n \<longrightarrow> c r \<le> c r'"
    proof (intro allI impI)
      fix r' assume "i \<le> r' \<and> r' \<le> Suc n"
      then consider "r' = Suc n" | "i \<le> r'" "r' \<le> n" by linarith
      then show "c r \<le> c r'"
      proof cases
        case 1 then show ?thesis using False by simp
      next
        case 2 then show ?thesis by (rule le)
      qed
    qed
    ultimately show ?thesis using r less by (intro exI [of _ r]) simp
  qed
qed

subsection \<open>Filling one interval\<close>

lemma filled_Suc:
  assumes "1 \<le> L" "1 \<le> i" "i + L \<le> n + 1"
  shows "filled n L (Suc i) a b \<longleftrightarrow> filled n L i a b \<or> (a = i \<and> b = i + L - 1)"
  using assms unfolding filled_def by auto

lemma not_filled_current: "\<not> filled n L i i (i + L - 1)"
  unfolding filled_def by auto

lemma fill_interval_eq:
  assumes inv: "dp_inv p q n L i (e, w, rt)" and L: "1 \<le> L" and i: "1 \<le> i" and bound: "i + L \<le> n + 1"
  shows "fill_interval p q L i (e, w, rt) =
     (tset (tset e i (i + L - 1) PInf) i (i + L - 1) (Fin (opt_cost p q i (i + L - 1))),
      tset w i (i + L - 1) (Fin (weight_sum p q i (i + L - 1))),
      tset rt i (i + L - 1) (Some (int (opt_root p q i (i + L - 1)))))"
proof -
  define j where "j = i + L - 1"
  have ij: "i \<le> j" "j \<le> n" "i < n + 2" "j < n + 2" using L i bound by (auto simp: j_def)
  have wf: "wf_table (n + 2) e" "wf_table (n + 2) w"
    using inv by (auto simp: dp_inv_def)
  have cells: "\<And>a b. filled n L i a b \<Longrightarrow>
      tget e a b = Fin (opt_cost p q a b) \<and> tget w a b = Fin (weight_sum p q a b)"
    using inv by (auto simp: dp_inv_def)
  define e1 where "e1 = tset e i j PInf"
  define w1 where "w1 = tset w i j (Fin (weight_sum p q i j))"
  have "filled n L i i (j - 1)" using L i bound by (auto simp: filled_def j_def)
  then have "tget w i (j - 1) = Fin (weight_sum p q i (j - 1))" using cells by blast
  then have w1: "tset w i j (fl_add (fl_add (tget w i (j - 1)) (Fin (p ! (j - 1)))) (Fin (q ! j))) = w1"
    using weight_sum_extend [OF i ij(1), of p q] by (simp add: w1_def)
  have custo: "custo e1 w1 i j r = Fin (cand p q i j r)" if r: "i \<le> r" "r \<le> j" for r
  proof -
    have "filled n L i i (r - 1)" using L i bound r by (auto simp: filled_def j_def)
    then have "tget e i (r - 1) = Fin (opt_cost p q i (r - 1))" using cells by blast
    moreover have "tget e1 i (r - 1) = tget e i (r - 1)"
      unfolding e1_def using wf ij r i by (subst tget_tset [of "n + 2"]) auto
    moreover have "filled n L i (r + 1) j" using L i bound r by (auto simp: filled_def j_def)
    then have "tget e (r + 1) j = Fin (opt_cost p q (r + 1) j)" using cells by blast
    moreover have "tget e1 (r + 1) j = tget e (r + 1) j"
      unfolding e1_def using wf ij r i by (subst tget_tset [of "n + 2"]) auto
    moreover have "tget w1 i j = Fin (weight_sum p q i j)"
      unfolding w1_def using wf ij by (subst tget_tset [of "n + 2"]) auto
    ultimately show ?thesis by (simp add: custo_def cand_def)
  qed
  have "\<exists>r. i \<le> r \<and> r \<le> j
      \<and> fold (root_step e1 w1 i j) [i..<Suc j] (None, PInf) = (Some (int r), Fin (cand p q i j r))
      \<and> (\<forall>r'. i \<le> r' \<and> r' \<le> j \<longrightarrow> cand p q i j r \<le> cand p q i j r')
      \<and> (\<forall>r'. i \<le> r' \<and> r' < r \<longrightarrow> cand p q i j r < cand p q i j r')"
    using ij(1) custo by (rule best_root_scan)
  then obtain r where r: "i \<le> r" "r \<le> j"
    and best: "best_root e1 w1 i j = (Some (int r), Fin (cand p q i j r))"
    and le: "\<And>r'. i \<le> r' \<Longrightarrow> r' \<le> j \<Longrightarrow> cand p q i j r \<le> cand p q i j r'"
    and less: "\<And>r'. i \<le> r' \<Longrightarrow> r' < r \<Longrightarrow> cand p q i j r < cand p q i j r'"
    unfolding best_root_def by auto
  have "opt_cost p q i j = cand p q i j r"
    using i r le less by (rule opt_root_unique(1))
  moreover have "opt_root p q i j = r"
    using i r le less by (rule opt_root_unique(2))
  ultimately have "best_root e1 w1 i j = (Some (int (opt_root p q i j)), Fin (opt_cost p q i j))"
    using best by simp
  moreover have "fill_interval p q L i (e, w, rt) =
      (case best_root e1
          (tset w i j (fl_add (fl_add (tget w i (j - 1)) (Fin (p ! (j - 1)))) (Fin (q ! j)))) i j of
         (melhor_r, melhor_custo) \<Rightarrow>
           (tset e1 i j melhor_custo,
            tset w i j (fl_add (fl_add (tget w i (j - 1)) (Fin (p ! (j - 1)))) (Fin (q ! j))),
            tset rt i j melhor_r))"
    unfolding fill_interval_def e1_def j_def by (simp add: Let_def)
  ultimately have "fill_interval p q L i (e, w, rt) =
      (tset e1 i j (Fin (opt_cost p q i j)), w1, tset rt i j (Some (int (opt_root p q i j))))"
    unfolding w1 by simp
  then show ?thesis unfolding e1_def w1_def j_def .
qed

lemma fill_interval_inv:
  assumes inv: "dp_inv p q n L i s" and L: "1 \<le> L" and i: "1 \<le> i" and bound: "i + L \<le> n + 1"
  shows "dp_inv p q n L (Suc i) (fill_interval p q L i s)"
proof -
  obtain e w rt where s: "s = (e, w, rt)" by (cases s) auto
  define j where "j = i + L - 1"
  have ij: "i \<le> j" "j \<le> n" "i < n + 2" "j < n + 2" using L i bound by (auto simp: j_def)
  have wf: "wf_table (n + 2) e" "wf_table (n + 2) w" "wf_table (n + 2) rt"
    using inv by (auto simp: dp_inv_def s)
  have cells: "\<And>a b. filled n L i a b \<Longrightarrow>
      tget e a b = Fin (opt_cost p q a b) \<and> tget w a b = Fin (weight_sum p q a b)"
    using inv by (auto simp: dp_inv_def s)
  have roots: "\<And>a b. a < n + 2 \<Longrightarrow> b < n + 2 \<Longrightarrow>
      tget rt a b = (if filled n L i a b \<and> a \<le> b then Some (int (opt_root p q a b)) else Some 0)"
    using inv by (auto simp: dp_inv_def s)
  have nf: "\<not> filled n L i i j" unfolding j_def by (rule not_filled_current)
  have fS: "\<And>a b. filled n L (Suc i) a b \<longleftrightarrow> filled n L i a b \<or> (a = i \<and> b = j)"
    unfolding j_def using L i bound by (rule filled_Suc)
  define e' where "e' = tset (tset e i j PInf) i j (Fin (opt_cost p q i j))"
  define w' where "w' = tset w i j (Fin (weight_sum p q i j))"
  define rt' where "rt' = tset rt i j (Some (int (opt_root p q i j)))"
  have eq: "fill_interval p q L i s = (e', w', rt')"
    unfolding s e'_def w'_def rt'_def j_def using inv L i bound
    by (intro fill_interval_eq) (simp add: s)
  have wf1: "wf_table (n + 2) (tset e i j PInf)" using wf by (intro wf_tset)
  have ge: "tget e' a b = (if a = i \<and> b = j then Fin (opt_cost p q i j) else tget e a b)" for a b
    unfolding e'_def using wf1 wf ij by (simp add: tget_tset [of "n + 2"])
  have gw: "tget w' a b = (if a = i \<and> b = j then Fin (weight_sum p q i j) else tget w a b)" for a b
    unfolding w'_def using wf ij by (simp add: tget_tset [of "n + 2"])
  have gr: "tget rt' a b = (if a = i \<and> b = j then Some (int (opt_root p q i j)) else tget rt a b)" for a b
    unfolding rt'_def using wf ij by (simp add: tget_tset [of "n + 2"])
  have "wf_table (n + 2) e'" "wf_table (n + 2) w'" "wf_table (n + 2) rt'"
    unfolding e'_def w'_def rt'_def using wf by (intro wf_tset; simp)+
  moreover have "\<forall>a b. filled n L (Suc i) a b \<longrightarrow>
        tget e' a b = Fin (opt_cost p q a b) \<and> tget w' a b = Fin (weight_sum p q a b)"
    using cells by (auto simp: fS ge gw)
  moreover have "\<forall>a b. a < n + 2 \<and> b < n + 2 \<longrightarrow>
        tget rt' a b =
          (if filled n L (Suc i) a b \<and> a \<le> b then Some (int (opt_root p q a b)) else Some 0)"
    using roots ij nf by (auto simp: fS gr)
  ultimately show ?thesis unfolding eq by (simp add: dp_inv_def)
qed

subsection \<open>The loops of the table builder\<close>

lemma init_base_inv:
  assumes "init_base q n (new_table (n + 2) (Fin 0), new_table (n + 2) (Fin 0)) = (e, w)"
  shows "wf_table (n + 2) e" and "wf_table (n + 2) w"
    and "\<And>a. 1 \<le> a \<Longrightarrow> a \<le> n + 1 \<Longrightarrow>
           tget e a (a - 1) = Fin (q ! (a - 1)) \<and> tget w a (a - 1) = Fin (q ! (a - 1))"
proof -
  let ?P = "\<lambda>k (s :: fl table \<times> fl table). case s of (e, w) \<Rightarrow>
      wf_table (n + 2) e \<and> wf_table (n + 2) w \<and>
      (\<forall>a. 1 \<le> a \<and> a < k \<longrightarrow>
         tget e a (a - 1) = Fin (q ! (a - 1)) \<and> tget w a (a - 1) = Fin (q ! (a - 1)))"
  let ?f = "\<lambda>i (e, w). (tset e i (i - 1) (Fin (q ! (i - 1))), tset w i (i - 1) (Fin (q ! (i - 1))))"
  have "?P (n + 2) (fold ?f [1..<n + 2] (new_table (n + 2) (Fin 0), new_table (n + 2) (Fin 0)))"
  proof (rule fold_upt_invariant [where P = ?P and f = ?f])
    show "1 \<le> n + 2" by simp
    show "?P 1 (new_table (n + 2) (Fin 0), new_table (n + 2) (Fin 0))"
      by (simp add: wf_new_table)
  next
    fix k and t :: "fl table \<times> fl table"
    assume k: "1 \<le> k" "k < n + 2" and P: "?P k t"
    obtain e0 w0 where t: "t = (e0, w0)" by (cases t) auto
    have wf: "wf_table (n + 2) e0" "wf_table (n + 2) w0" using P by (auto simp: t)
    have old: "\<And>a. 1 \<le> a \<Longrightarrow> a < k \<Longrightarrow>
        tget e0 a (a - 1) = Fin (q ! (a - 1)) \<and> tget w0 a (a - 1) = Fin (q ! (a - 1))"
      using P by (auto simp: t)
    have "tget (tset e0 k (k - 1) v) a (a - 1) = (if a = k then v else tget e0 a (a - 1))" for a v
      using wf k by (subst tget_tset [of "n + 2"]) auto
    moreover have "tget (tset w0 k (k - 1) v) a (a - 1) = (if a = k then v else tget w0 a (a - 1))" for a v
      using wf k by (subst tget_tset [of "n + 2"]) auto
    ultimately show "?P (Suc k) (?f k t)"
      using wf old by (auto simp: t wf_tset less_Suc_eq)
  qed
  then have all: "?P (n + 2) (e, w)"
    using assms by (simp add: init_base_def)
  show "wf_table (n + 2) e" "wf_table (n + 2) w" using all by simp_all
  fix a assume "1 \<le> a" "a \<le> n + 1"
  then show "tget e a (a - 1) = Fin (q ! (a - 1)) \<and> tget w a (a - 1) = Fin (q ! (a - 1))"
    using all by simp
qed

lemma dp_inv_start:
  assumes "init_base q n (new_table (n + 2) (Fin 0), new_table (n + 2) (Fin 0)) = (e, w)"
  shows "dp_inv p q n 1 1 (e, w, new_table (n + 2) (Some 0))"
proof -
  note base = init_base_inv [OF assms]
  have f: "filled n 1 1 a b \<longleftrightarrow> 1 \<le> a \<and> a \<le> n + 1 \<and> b = a - 1" for a b
    unfolding filled_def by auto
  have "\<forall>a b. filled n 1 1 a b \<longrightarrow>
        tget e a b = Fin (opt_cost p q a b) \<and> tget w a b = Fin (weight_sum p q a b)"
  proof (intro allI impI)
    fix a b assume "filled n 1 1 a b"
    then have a: "1 \<le> a" "a \<le> n + 1" and b: "b = a - 1" unfolding f by simp_all
    show "tget e a b = Fin (opt_cost p q a b) \<and> tget w a b = Fin (weight_sum p q a b)"
      unfolding b using base(3) [OF a] opt_cost_empty [OF a(1), of p q]
        weight_sum_empty [OF a(1), of p q] by simp
  qed
  moreover have "\<forall>a b. a < n + 2 \<and> b < n + 2 \<longrightarrow>
        tget (new_table (n + 2) (Some 0)) a b =
          (if filled n 1 1 a b \<and> a \<le> b then Some (int (opt_root p q a b)) else Some 0)"
  proof (intro allI impI)
    fix a b assume ab: "a < n + 2 \<and> b < n + 2"
    have "\<not> (filled n 1 1 a b \<and> a \<le> b)" unfolding f by auto
    then have "(if filled n 1 1 a b \<and> a \<le> b then Some (int (opt_root p q a b)) else Some 0)
        = Some 0" by (simp only: if_False)
    then show "tget (new_table (n + 2) (Some 0)) a b =
          (if filled n 1 1 a b \<and> a \<le> b then Some (int (opt_root p q a b)) else Some 0)"
      using ab by (simp only: tget_new_table)
  qed
  ultimately show ?thesis
    using base(1,2) unfolding dp_inv_def by (simp add: wf_new_table)
qed

lemma fill_length_inv:
  assumes "dp_inv p q n L 1 s" "1 \<le> L" "L \<le> n"
  shows "dp_inv p q n (Suc L) 1 (fill_length p q n L s)"
proof -
  have "dp_inv p q n L (n - L + 2) (fold (fill_interval p q L) [1..<n - L + 2] s)"
  proof (rule fold_upt_invariant [where P = "dp_inv p q n L"])
    show "1 \<le> n - L + 2" by simp
    show "dp_inv p q n L 1 s" by fact
  next
    fix k t assume "1 \<le> k" "k < n - L + 2" "dp_inv p q n L k t"
    then show "dp_inv p q n L (Suc k) (fill_interval p q L k t)"
      using assms(2,3) by (intro fill_interval_inv) auto
  qed
  moreover have "filled n (Suc L) 1 a b \<longleftrightarrow> filled n L (n - L + 2) a b" for a b
    using assms(2,3) unfolding filled_def by auto
  ultimately show ?thesis by (simp add: dp_inv_def fill_length_def)
qed

lemma filled_final: "filled n (n + 1) 1 a b \<longleftrightarrow> 1 \<le> a \<and> a \<le> b + 1 \<and> b \<le> n"
  unfolding filled_def by auto

lemma optimal_bst_Inr:
  assumes "optimal_bst p q keys = Inr (e, w, rt)"
  shows "length keys = length p" and "length p + 1 \<le> length q"
    and "dp_inv p q (length p) (length p + 1) 1 (e, w, rt)"
proof -
  define n where "n = length p"
  show len: "length keys = length p" "length p + 1 \<le> length q"
    using assms by (auto simp: optimal_bst_def Let_def split: if_splits)
  obtain e0 w0 where init:
    "init_base q n (new_table (n + 2) (Fin 0), new_table (n + 2) (Fin 0)) = (e0, w0)"
    by (cases "init_base q n (new_table (n + 2) (Fin 0), new_table (n + 2) (Fin 0))") auto
  have res: "(e, w, rt) = fold (fill_length p q n) [1..<n + 1] (e0, w0, new_table (n + 2) (Some 0))"
    using assms len init unfolding optimal_bst_def Let_def n_def [symmetric] by simp
  have "dp_inv p q n (n + 1) 1 (fold (fill_length p q n) [1..<n + 1] (e0, w0, new_table (n + 2) (Some 0)))"
  proof (rule fold_upt_invariant [where P = "\<lambda>L. dp_inv p q n L 1"])
    show "1 \<le> n + 1" by simp
    show "dp_inv p q n 1 1 (e0, w0, new_table (n + 2) (Some 0))"
      using init by (rule dp_inv_start)
  next
    fix k t assume "1 \<le> k" "k < n + 1" "dp_inv p q n k 1 t"
    then show "dp_inv p q n (Suc k) 1 (fill_length p q n k t)"
      by (intro fill_length_inv) auto
  qed
  then show "dp_inv p q (length p) (length p + 1) 1 (e, w, rt)"
    unfolding res n_def .
qed

lemma optimal_bst_defined:
  assumes "length keys = length p" "length p + 1 \<le> length q"
  shows "\<exists>e w rt. optimal_bst p q keys = Inr (e, w, rt)"
proof -
  define n where "n = length p"
  obtain e0 w0 where init:
    "init_base q n (new_table (n + 2) (Fin 0), new_table (n + 2) (Fin 0)) = (e0, w0)"
    by (cases "init_base q n (new_table (n + 2) (Fin 0), new_table (n + 2) (Fin 0))") auto
  have "optimal_bst p q keys
      = Inr (fold (fill_length p q n) [1..<n + 1] (e0, w0, new_table (n + 2) (Some 0)))"
    using assms init unfolding optimal_bst_def Let_def n_def [symmetric] by simp
  then show ?thesis
    by (cases "fold (fill_length p q n) [1..<n + 1] (e0, w0, new_table (n + 2) (Some 0))") auto
qed

lemma optimal_bst_cells:
  assumes "optimal_bst p q keys = Inr (e, w, rt)" and "1 \<le> a" "a \<le> b + 1" "b \<le> length p"
  shows "tget e a b = Fin (opt_cost p q a b)" and "tget w a b = Fin (weight_sum p q a b)"
    and "a \<le> b \<Longrightarrow> tget rt a b = Some (int (opt_root p q a b))"
proof -
  have inv: "dp_inv p q (length p) (length p + 1) 1 (e, w, rt)"
    using assms(1) by (rule optimal_bst_Inr)
  have f: "filled (length p) (length p + 1) 1 a b" using assms(2-4) unfolding filled_final by simp
  show "tget e a b = Fin (opt_cost p q a b)" "tget w a b = Fin (weight_sum p q a b)"
    using inv f by (auto simp: dp_inv_def)
  assume "a \<le> b"
  moreover have "a < length p + 2" "b < length p + 2" using assms(2-4) by auto
  ultimately show "tget rt a b = Some (int (opt_root p q a b))"
    using inv f by (auto simp: dp_inv_def)
qed

lemma optimal_bst_wf:
  assumes "optimal_bst p q keys = Inr (e, w, rt)"
  shows "wf_table (length p + 2) e" "wf_table (length p + 2) w" "wf_table (length p + 2) rt"
  using optimal_bst_Inr(3) [OF assms] by (auto simp: dp_inv_def)


subsection \<open>Traversals of a table whose roots lie in their intervals\<close>

lemma py_index_nat: "k < length xs \<Longrightarrow> py_index xs (int k) = Inr (xs ! k)"
  by (simp add: py_index_def)

lemma root_at_tget:
  assumes "wf_table m rt" "a < m" "b < m" "tget rt a b = Some r"
  shows "root_at rt (int a) (int b) = Inr r"
proof -
  have "a < length rt" "b < length (rt ! a)" using assms by (auto simp: wf_table_def)
  then show ?thesis using assms(4) by (simp add: root_at_def py_index_nat tget_def)
qed

lemma optimal_bst_roots_in_range:
  assumes "optimal_bst p q keys = Inr (e, w, rt)"
  shows "roots_in_range (length p) rt"
  unfolding roots_in_range_def
proof (intro allI impI)
  fix a b assume ab: "1 \<le> a \<and> a \<le> b \<and> b \<le> length p"
  have "tget rt a b = Some (int (opt_root p q a b))"
    using assms ab by (intro optimal_bst_cells) auto
  then have "root_at rt (int a) (int b) = Inr (int (opt_root p q a b))"
    using optimal_bst_wf(3) [OF assms] ab by (intro root_at_tget [of "length p + 2"]) auto
  moreover have "a \<le> opt_root p q a b" "opt_root p q a b \<le> b"
    using ab by (auto intro: opt_root_props)
  ultimately show "\<exists>r. root_at rt (int a) (int b) = Inr (int r) \<and> a \<le> r \<and> r \<le> b"
    by blast
qed

lemma interval_split:
  assumes "a \<le> r" "r \<le> b"
  shows "[a..<Suc b] = [a..<r] @ [r] @ [Suc r..<Suc b]"
proof -
  have "[a..<Suc b] = [a..<r] @ [r..<Suc b]"
  proof -
    obtain d where d: "r = a + d" using assms(1) by (auto simp: le_iff_add)
    obtain d' where d': "Suc b = r + d'" using assms(2) by (metis le_Suc_eq le_iff_add)
    show ?thesis unfolding d' unfolding d by (rule upt_add_eq_append) simp
  qed
  moreover have "[r..<Suc b] = r # [Suc r..<Suc b]"
    using assms by (simp add: upt_conv_Cons)
  ultimately show ?thesis by simp
qed

lemma keys_by_index: "map (\<lambda>k. keys ! (k - 1)) [1..<Suc (length keys)] = keys"
proof (rule nth_equalityI)
  show "length (map (\<lambda>k. keys ! (k - 1)) [1..<Suc (length keys)]) = length keys"
    by (simp del: upt_Suc)
next
  fix i assume "i < length (map (\<lambda>k. keys ! (k - 1)) [1..<Suc (length keys)])"
  then have i: "i < length keys" by (simp del: upt_Suc)
  then have "[1..<Suc (length keys)] ! i = 1 + i" by (intro nth_upt) simp
  then show "map (\<lambda>k. keys ! (k - 1)) [1..<Suc (length keys)] ! i = keys ! i"
    using i by (simp add: nth_map del: upt_Suc)
qed

text \<open>One unfolding of each traversal on a non-empty interval.\<close>

lemma preorder_step:
  assumes "i \<le> j" "root_at rt i j = Inr r" "py_index keys (r - 1) = Inr k"
    and "preorder_from_root rt keys i (r - 1) = Some (Inr ls)"
    and "preorder_from_root rt keys (r + 1) j = Some (Inr rs)"
  shows "preorder_from_root rt keys i j = Some (Inr ([k] @ ls @ rs))"
  using assms(1) by (subst preorder_from_root.simps) (simp add: assms(2-))

lemma inorder_step:
  assumes "i \<le> j" "root_at rt i j = Inr r" "py_index keys (r - 1) = Inr k"
    and "inorder_from_root rt keys i (r - 1) = Some (Inr ls)"
    and "inorder_from_root rt keys (r + 1) j = Some (Inr rs)"
  shows "inorder_from_root rt keys i j = Some (Inr (ls @ [k] @ rs))"
  using assms(1) by (subst inorder_from_root.simps) (simp add: assms(2-))

lemma postorder_step:
  assumes "i \<le> j" "root_at rt i j = Inr r" "py_index keys (r - 1) = Inr k"
    and "postorder_from_root rt keys i (r - 1) = Some (Inr ls)"
    and "postorder_from_root rt keys (r + 1) j = Some (Inr rs)"
  shows "postorder_from_root rt keys i j = Some (Inr (ls @ rs @ [k]))"
  using assms(1) by (subst postorder_from_root.simps) (simp add: assms(2-))

lemma traversal_empty:
  assumes "j < i"
  shows "preorder_from_root rt keys i j = Some (Inr [])"
    and "inorder_from_root rt keys i j = Some (Inr [])"
    and "postorder_from_root rt keys i j = Some (Inr [])"
  using assms
  by (simp_all add: preorder_from_root.simps inorder_from_root.simps postorder_from_root.simps)


lemma inorder_of_tree_table:
  assumes rng: "roots_in_range n rt" and len: "length keys = n"
  shows "1 \<le> a \<Longrightarrow> a \<le> b + 1 \<Longrightarrow> b \<le> n \<Longrightarrow>
     inorder_from_root rt keys (int a) (int b) = Some (Inr (map (\<lambda>k. keys ! (k - 1)) [a..<Suc b]))"
proof (induction "b + 1 - a" arbitrary: a b rule: less_induct)
  case less
  show ?case
  proof (cases "a \<le> b")
    case False
    then have "int b < int a" "[a..<Suc b] = []" using less.prems by auto
    then show ?thesis by (simp add: traversal_empty)
  next
    case True
    obtain r where root: "root_at rt (int a) (int b) = Inr (int r)" and r: "a \<le> r" "r \<le> b"
      using rng True less.prems unfolding roots_in_range_def by blast
    have r1: "int r - 1 = int (r - 1)" and r2: "int r + 1 = int (Suc r)"
      using r less.prems by auto
    have S: "Suc (r - 1) = r" using r less.prems by simp
    have "inorder_from_root rt keys (int a) (int (r - 1))
        = Some (Inr (map (\<lambda>k. keys ! (k - 1)) [a..<Suc (r - 1)]))"
      using less.prems r by (intro less.hyps) auto
    then have left: "inorder_from_root rt keys (int a) (int r - 1)
        = Some (Inr (map (\<lambda>k. keys ! (k - 1)) [a..<r]))"
      unfolding r1 S .
    have right: "inorder_from_root rt keys (int r + 1) (int b)
        = Some (Inr (map (\<lambda>k. keys ! (k - 1)) [Suc r..<Suc b]))"
      unfolding r2 using less.prems r by (intro less.hyps) auto
    have "py_index keys (int (r - 1)) = Inr (keys ! (r - 1))"
      using less.prems r len by (intro py_index_nat) auto
    then have key: "py_index keys (int r - 1) = Inr (keys ! (r - 1))"
      unfolding r1 .
    have "int a \<le> int b" using True by simp
    then have "inorder_from_root rt keys (int a) (int b)
        = Some (Inr (map (\<lambda>k. keys ! (k - 1)) [a..<r] @ [keys ! (r - 1)]
            @ map (\<lambda>k. keys ! (k - 1)) [Suc r..<Suc b]))"
      using root key left right by (rule inorder_step)
    then show ?thesis unfolding interval_split [OF r] by simp
  qed
qed

lemma preorder_of_tree_table:
  assumes rng: "roots_in_range n rt" and len: "length keys = n"
  shows "1 \<le> a \<Longrightarrow> a \<le> b + 1 \<Longrightarrow> b \<le> n \<Longrightarrow>
     \<exists>ks. preorder_from_root rt keys (int a) (int b) = Some (Inr ks) \<and> length ks = b + 1 - a"
proof (induction "b + 1 - a" arbitrary: a b rule: less_induct)
  case less
  show ?case
  proof (cases "a \<le> b")
    case False
    then have "int b < int a" "b + 1 - a = 0" using less.prems by auto
    then show ?thesis by (simp add: traversal_empty)
  next
    case True
    obtain r where root: "root_at rt (int a) (int b) = Inr (int r)" and r: "a \<le> r" "r \<le> b"
      using rng True less.prems unfolding roots_in_range_def by blast
    have r1: "int r - 1 = int (r - 1)" and r2: "int r + 1 = int (Suc r)"
      using r less.prems by auto
    have "\<exists>ks. preorder_from_root rt keys (int a) (int (r - 1)) = Some (Inr ks)
        \<and> length ks = (r - 1) + 1 - a"
      using less.prems r by (intro less.hyps) auto
    then obtain ls where left: "preorder_from_root rt keys (int a) (int r - 1) = Some (Inr ls)"
      and ll: "length ls = (r - 1) + 1 - a" unfolding r1 by blast
    have "\<exists>ks. preorder_from_root rt keys (int (Suc r)) (int b) = Some (Inr ks)
        \<and> length ks = b + 1 - Suc r"
      using less.prems r by (intro less.hyps) auto
    then obtain rs where right: "preorder_from_root rt keys (int r + 1) (int b) = Some (Inr rs)"
      and lr: "length rs = b + 1 - Suc r" unfolding r2 by blast
    have "py_index keys (int (r - 1)) = Inr (keys ! (r - 1))"
      using less.prems r len by (intro py_index_nat) auto
    then have key: "py_index keys (int r - 1) = Inr (keys ! (r - 1))"
      unfolding r1 .
    have "int a \<le> int b" using True by simp
    then have "preorder_from_root rt keys (int a) (int b) = Some (Inr ([keys ! (r - 1)] @ ls @ rs))"
      using root key left right by (rule preorder_step)
    moreover have "length ([keys ! (r - 1)] @ ls @ rs) = b + 1 - a"
      using ll lr r less.prems by simp
    ultimately show ?thesis by blast
  qed
qed

lemma postorder_of_tree_table:
  assumes rng: "roots_in_range n rt" and len: "length keys = n"
  shows "1 \<le> a \<Longrightarrow> a \<le> b + 1 \<Longrightarrow> b \<le> n \<Longrightarrow>
     \<exists>ks. postorder_from_root rt keys (int a) (int b) = Some (Inr ks) \<and> length ks = b + 1 - a"
proof (induction "b + 1 - a" arbitrary: a b rule: less_induct)
  case less
  show ?case
  proof (cases "a \<le> b")
    case False
    then have "int b < int a" "b + 1 - a = 0" using less.prems by auto
    then show ?thesis by (simp add: traversal_empty)
  next
    case True
    obtain r where root: "root_at rt (int a) (int b) = Inr (int r)" and r: "a \<le> r" "r \<le> b"
      using rng True less.prems unfolding roots_in_range_def by blast
    have r1: "int r - 1 = int (r - 1)" and r2: "int r + 1 = int (Suc r)"
      using r less.prems by auto
    have "\<exists>ks. postorder_from_root rt keys (int a) (int (r - 1)) = Some (Inr ks)
        \<and> length ks = (r - 1) + 1 - a"
      using less.prems r by (intro less.hyps) auto
    then obtain ls where left: "postorder_from_root rt keys (int a) (int r - 1) = Some (Inr ls)"
      and ll: "length ls = (r - 1) + 1 - a" unfolding r1 by blast
    have "\<exists>ks. postorder_from_root rt keys (int (Suc r)) (int b) = Some (Inr ks)
        \<and> length ks = b + 1 - Suc r"
      using less.prems r by (intro less.hyps) auto
    then obtain rs where right: "postorder_from_root rt keys (int r + 1) (int b) = Some (Inr rs)"
      and lr: "length rs = b + 1 - Suc r" unfolding r2 by blast
    have "py_index keys (int (r - 1)) = Inr (keys ! (r - 1))"
      using less.prems r len by (intro py_index_nat) auto
    then have key: "py_index keys (int r - 1) = Inr (keys ! (r - 1))"
      unfolding r1 .
    have "int a \<le> int b" using True by simp
    then have "postorder_from_root rt keys (int a) (int b) = Some (Inr (ls @ rs @ [keys ! (r - 1)]))"
      using root key left right by (rule postorder_step)
    moreover have "length (ls @ rs @ [keys ! (r - 1)]) = b + 1 - a"
      using ll lr r less.prems by simp
    ultimately show ?thesis by blast
  qed
qed

section \<open>Properties of the program\<close>

subsection \<open>Concrete runs\<close>

lemmas dp_defs = optimal_bst_def init_base_def new_table_def tset_def tget_def fill_length_def
  fill_interval_def best_root_def root_step_def custo_def

lemma run_one_key:
  "optimal_bst [1 / 2] [1 / 4, 1 / 4] [k1] =
     Inr ([[Fin 0, Fin 0, Fin 0], [Fin (1 / 4), Fin (3 / 2), Fin 0], [Fin 0, Fin (1 / 4), Fin 0]],
          [[Fin 0, Fin 0, Fin 0], [Fin (1 / 4), Fin 1, Fin 0], [Fin 0, Fin (1 / 4), Fin 0]],
          [[Some 0, Some 0, Some 0], [Some 0, Some 1, Some 0], [Some 0, Some 0, Some 0]])"
  by (simp add: dp_defs upt_rec Let_def)

lemma run_two_keys:
  "optimal_bst [1 / 2, 1 / 2] [0, 0, 0] [k1, k2] =
     Inr ([[Fin 0, Fin 0, Fin 0, Fin 0], [Fin 0, Fin (1 / 2), Fin (3 / 2), Fin 0],
           [Fin 0, Fin 0, Fin (1 / 2), Fin 0], [Fin 0, Fin 0, Fin 0, Fin 0]],
          [[Fin 0, Fin 0, Fin 0, Fin 0], [Fin 0, Fin (1 / 2), Fin 1, Fin 0],
           [Fin 0, Fin 0, Fin (1 / 2), Fin 0], [Fin 0, Fin 0, Fin 0, Fin 0]],
          [[Some 0, Some 0, Some 0, Some 0], [Some 0, Some 1, Some 1, Some 0],
           [Some 0, Some 0, Some 2, Some 0], [Some 0, Some 0, Some 0, Some 0]])"
  by (simp add: dp_defs upt_rec Let_def)

subsection \<open>C8: the validator\<close>

text \<open>
  C8. \<^verbatim>\<open>validate_probabilities(p, q)\<close> raises a \<^verbatim>\<open>ValueError\<close> if and only if
  \<^verbatim>\<open>len(q) != len(p) + 1\<close>, or some entry of \<open>p\<close> or \<open>q\<close> is negative, or the sum of all
  entries differs from 1 by more than \<open>10\<^sup>-\<^sup>6\<close>; otherwise it returns normally. The function
  is pure in the model: its only result is the error or the unit value.
\<close>

theorem validate_probabilities_raises_iff:
  "(if length q \<noteq> length p + 1 \<or> (\<exists>x \<in> set p \<union> set q. x < 0)
        \<or> \<bar>sum_list p + sum_list q - 1\<bar> > 1 / 10 ^ 6
    then \<exists>m. validate_probabilities p q = Inl (ValueError m)
    else validate_probabilities p q = Inr ())"
  by (auto simp: validate_probabilities_def list_ex_iff Let_def)

theorem validate_probabilities_raises_iff_witness:
  "validate_probabilities [1 / 2] [1 / 4, 1 / 4] = Inr ()
   \<and> (\<exists>m. validate_probabilities [1 / 2] [1 / 4, - 1 / 4] = Inl (ValueError m))"
  using validate_probabilities_raises_iff [of "[1 / 4, 1 / 4]" "[1 / 2]"]
    validate_probabilities_raises_iff [of "[1 / 4, - 1 / 4]" "[1 / 2]"]
  by simp

subsection \<open>C7: no keys\<close>

text \<open>
  C7. For \<open>n = 0\<close> (empty \<open>p\<close> and \<open>keys\<close>, \<open>q\<close> of length 1) \<^verbatim>\<open>optimal_bst\<close> returns tables
  with \<^verbatim>\<open>e[1][0] == q[0]\<close>, and each of the three traversal functions called with
  \<open>i = 1\<close>, \<open>j = 0\<close> returns the empty list (on the returned root table, and on any
  other table and key list as well).
\<close>

theorem base_case_no_keys:
  "(\<exists>e w rt. optimal_bst [] [q0] ([] :: 'k list) = Inr (e, w, rt) \<and> tget e 1 0 = Fin q0)
   \<and> preorder_from_root root_tab (keys :: 'k list) 1 0 = Some (Inr [])
   \<and> inorder_from_root root_tab keys 1 0 = Some (Inr [])
   \<and> postorder_from_root root_tab keys 1 0 = Some (Inr [])"
  by (simp add: optimal_bst_def init_base_def new_table_def tset_def tget_def
      preorder_from_root.simps inorder_from_root.simps postorder_from_root.simps)

subsection \<open>C5: weights\<close>

text \<open>
  C5. The incrementally accumulated weight table equals its closed form: for every
  interval \<open>[i, j]\<close> with \<open>1 \<le> i \<le> j \<le> n\<close>, and for the empty intervals \<open>[i, i - 1]\<close>,
  the entry \<^verbatim>\<open>w[i][j]\<close> left by \<^verbatim>\<open>optimal_bst\<close> is the sum of \<open>p\<close> over the keys \<open>i..j\<close>
  plus the sum of \<open>q\<close> over the gaps \<open>i-1..j\<close> (over exact arithmetic).
\<close>

theorem weight_table_closed_form:
  assumes "optimal_bst p q keys = Inr (e, w, rt)" and "1 \<le> i" "i \<le> j + 1" "j \<le> length p"
  shows "tget w i j = Fin ((\<Sum>k = i..j. p ! (k - 1)) + (\<Sum>g = i - 1..j. q ! g))"
  using optimal_bst_cells(2) [OF assms] by (simp add: weight_sum_def)

theorem weight_table_closed_form_witness:
  "tget [[Fin 0, Fin 0, Fin 0, Fin 0], [Fin 0, Fin (1 / 2), Fin 1, Fin 0],
         [Fin 0, Fin 0, Fin (1 / 2), Fin 0], [Fin 0, Fin 0, Fin 0, Fin 0]] 1 2
     = Fin ((\<Sum>k = 1..2. [1 / 2, 1 / 2] ! (k - 1)) + (\<Sum>g = 1 - 1..2. [0, 0, 0] ! g))"
  by (rule weight_table_closed_form [OF run_two_keys [of "''a''" "''b''"]]) simp_all

subsection \<open>C6: cost and weight\<close>

lemma weight_sum_nonneg:
  assumes "\<forall>x \<in> set p. 0 \<le> x" "\<forall>x \<in> set q. 0 \<le> x"
    and "1 \<le> i" "j \<le> length p" "length p + 1 \<le> length q"
  shows "0 \<le> weight_sum p q i j"
proof -
  have "0 \<le> (\<Sum>k = i..j. p ! (k - 1))"
  proof (rule sum_nonneg)
    fix k assume "k \<in> {i..j}"
    then have "p ! (k - 1) \<in> set p" using assms(3,4) by (intro nth_mem) auto
    then show "0 \<le> p ! (k - 1)" using assms(1) by blast
  qed
  moreover have "0 \<le> (\<Sum>g = i - 1..j. q ! g)"
  proof (rule sum_nonneg)
    fix g assume "g \<in> {i - 1..j}"
    then have "q ! g \<in> set q" using assms(4,5) by (intro nth_mem) auto
    then show "0 \<le> q ! g" using assms(2) by blast
  qed
  ultimately show ?thesis by (simp add: weight_sum_def)
qed

lemma opt_cost_ge_weight:
  assumes nn: "\<forall>x \<in> set p. 0 \<le> x" "\<forall>x \<in> set q. 0 \<le> x" and len: "length p + 1 \<le> length q"
  shows "1 \<le> i \<Longrightarrow> i \<le> j + 1 \<Longrightarrow> j \<le> length p \<Longrightarrow> weight_sum p q i j \<le> opt_cost p q i j"
proof (induction "j + 1 - i" arbitrary: i j rule: less_induct)
  case less
  show ?case
  proof (cases "i \<le> j")
    case False
    then have "j = i - 1" using less.prems by simp
    then show ?thesis
      using opt_cost_empty [OF less.prems(1), of p q] weight_sum_empty [OF less.prems(1), of p q]
      by simp
  next
    case True
    define r where "r = opt_root p q i j"
    have r: "i \<le> r" "r \<le> j" and c: "cand p q i j r = opt_cost p q i j"
      unfolding r_def using opt_root_props [OF less.prems(1) True] by auto
    have "weight_sum p q i (r - 1) \<le> opt_cost p q i (r - 1)"
      using less.prems r by (intro less.hyps) auto
    moreover have "0 \<le> weight_sum p q i (r - 1)"
      using less.prems r by (intro weight_sum_nonneg nn len) auto
    moreover have "weight_sum p q (r + 1) j \<le> opt_cost p q (r + 1) j"
      using less.prems r by (intro less.hyps) auto
    moreover have "0 \<le> weight_sum p q (r + 1) j"
      using less.prems r by (intro weight_sum_nonneg nn len) auto
    ultimately show ?thesis unfolding c [symmetric] by (simp add: cand_def)
  qed
qed

text \<open>
  C6. For every input accepted by \<^verbatim>\<open>optimal_bst\<close> whose entries of \<open>p\<close> and \<open>q\<close> are all
  nonnegative, and every non-empty interval \<open>[i, j]\<close> with \<open>1 \<le> i \<le> j \<le> n\<close>, the returned
  tables satisfy \<^verbatim>\<open>e[i][j] >= w[i][j]\<close>; both cells hold finite numbers.
\<close>

theorem cost_at_least_weight:
  assumes "optimal_bst p q keys = Inr (e, w, rt)"
    and "\<forall>x \<in> set p. 0 \<le> x" "\<forall>x \<in> set q. 0 \<le> x"
    and "1 \<le> i" "i \<le> j" "j \<le> length p"
  shows "\<exists>x y. tget e i j = Fin x \<and> tget w i j = Fin y \<and> y \<le> x"
proof -
  have len: "length p + 1 \<le> length q" using assms(1) by (rule optimal_bst_Inr)
  have "tget e i j = Fin (opt_cost p q i j)" "tget w i j = Fin (weight_sum p q i j)"
    using assms by (auto intro: optimal_bst_cells)
  moreover have "weight_sum p q i j \<le> opt_cost p q i j"
    using assms(2-) len by (intro opt_cost_ge_weight) auto
  ultimately show ?thesis by blast
qed

theorem cost_at_least_weight_witness:
  "\<exists>x y. tget [[Fin 0, Fin 0, Fin 0, Fin 0], [Fin 0, Fin (1 / 2), Fin (3 / 2), Fin 0],
                [Fin 0, Fin 0, Fin (1 / 2), Fin 0], [Fin 0, Fin 0, Fin 0, Fin 0]] 1 2 = Fin x
     \<and> tget [[Fin 0, Fin 0, Fin 0, Fin 0], [Fin 0, Fin (1 / 2), Fin 1, Fin 0],
              [Fin 0, Fin 0, Fin (1 / 2), Fin 0], [Fin 0, Fin 0, Fin 0, Fin 0]] 1 2 = Fin y
     \<and> y \<le> x"
  by (rule cost_at_least_weight [OF run_two_keys [of "''a''" "''b''"]]) simp_all

subsection \<open>C3: the in-order traversal\<close>

text \<open>
  C3. For every input with \<^verbatim>\<open>len(q) == len(p) + 1\<close> and \<^verbatim>\<open>len(keys) == len(p) = n\<close>,
  \<^verbatim>\<open>optimal_bst\<close> returns tables, and on the returned root table
  \<^verbatim>\<open>inorder_from_root(root, keys, 1, n)\<close> returns exactly \<open>keys\<close>, whichever roots were
  chosen. (The entries need not be nonnegative for this.)
\<close>

theorem inorder_round_trip:
  assumes "length keys = length p" "length q = length p + 1"
  shows "\<exists>e w rt. optimal_bst p q keys = Inr (e, w, rt)
     \<and> inorder_from_root rt keys 1 (int (length p)) = Some (Inr keys)"
proof -
  obtain e w rt where run: "optimal_bst p q keys = Inr (e, w, rt)"
    using optimal_bst_defined [of keys p q] assms by auto
  have "inorder_from_root rt keys (int 1) (int (length p))
      = Some (Inr (map (\<lambda>k. keys ! (k - 1)) [1..<Suc (length p)]))"
    using optimal_bst_roots_in_range [OF run] assms(1)
    by (rule inorder_of_tree_table) simp_all
  then have "inorder_from_root rt keys 1 (int (length p)) = Some (Inr keys)"
    using keys_by_index [of keys] assms(1) by simp
  with run show ?thesis by blast
qed

theorem inorder_round_trip_witness:
  "length [''a'', ''b''] = length [1 / 2, 1 / 2 :: real]
   \<and> length [0, 0, 0 :: real] = length [1 / 2, 1 / 2 :: real] + 1
   \<and> (\<exists>e w rt. optimal_bst [1 / 2, 1 / 2] [0, 0, 0] [''a'', ''b''] = Inr (e, w, rt)
        \<and> inorder_from_root rt [''a'', ''b''] 1 (int (length [1 / 2, 1 / 2 :: real]))
            = Some (Inr [''a'', ''b'']))"
  using inorder_round_trip [of "[''a'', ''b'']" "[1 / 2, 1 / 2]" "[0, 0, 0]"] by simp

subsection \<open>C10: roots lie in their intervals\<close>

text \<open>
  C10. For every run of \<^verbatim>\<open>optimal_bst\<close> that returns and every non-empty interval
  \<open>[i, j]\<close> with \<open>1 \<le> i \<le> j \<le> n\<close>: the cell \<^verbatim>\<open>root[i][j]\<close> holds an integer \<open>r\<close> with
  \<open>i \<le> r \<le> j\<close>; hence both sub-intervals \<open>[i, r - 1]\<close> and \<open>[r + 1, j]\<close> are strictly
  shorter than \<open>[i, j]\<close>, the index \<open>r - 1\<close> is a valid index of \<open>keys\<close>, and each of the
  three traversal functions returns a list (of \<open>j - i + 1\<close> keys) without raising.
\<close>

theorem roots_within_interval:
  assumes "optimal_bst p q keys = Inr (e, w, rt)" and "1 \<le> i" "i \<le> j" "j \<le> length p"
  shows "(\<exists>r. tget rt i j = Some (int r) \<and> i \<le> r \<and> r \<le> j
            \<and> (r - 1) + 1 - i < j + 1 - i \<and> j + 1 - (r + 1) < j + 1 - i
            \<and> r - 1 < length keys)
     \<and> (\<exists>ks. preorder_from_root rt keys (int i) (int j) = Some (Inr ks) \<and> length ks = j + 1 - i)
     \<and> (\<exists>ks. inorder_from_root rt keys (int i) (int j) = Some (Inr ks) \<and> length ks = j + 1 - i)
     \<and> (\<exists>ks. postorder_from_root rt keys (int i) (int j) = Some (Inr ks) \<and> length ks = j + 1 - i)"
proof -
  have len: "length keys = length p" using assms(1) by (rule optimal_bst_Inr)
  have rng: "roots_in_range (length p) rt" using assms(1) by (rule optimal_bst_roots_in_range)
  define r where "r = opt_root p q i j"
  have "tget rt i j = Some (int r)"
    unfolding r_def using assms by (intro optimal_bst_cells) auto
  moreover have r: "i \<le> r" "r \<le> j"
    unfolding r_def using assms(2,3) by (auto intro: opt_root_props)
  moreover have "(r - 1) + 1 - i < j + 1 - i" "j + 1 - (r + 1) < j + 1 - i" "r - 1 < length keys"
    using r assms(2-4) len by auto
  ultimately have first: "\<exists>r. tget rt i j = Some (int r) \<and> i \<le> r \<and> r \<le> j
            \<and> (r - 1) + 1 - i < j + 1 - i \<and> j + 1 - (r + 1) < j + 1 - i
            \<and> r - 1 < length keys"
    by blast
  have "\<exists>ks. preorder_from_root rt keys (int i) (int j) = Some (Inr ks) \<and> length ks = j + 1 - i"
    using rng len assms(2-4) by (intro preorder_of_tree_table) auto
  moreover have "inorder_from_root rt keys (int i) (int j)
      = Some (Inr (map (\<lambda>k. keys ! (k - 1)) [i..<Suc j]))"
    using rng len assms(2-4) by (intro inorder_of_tree_table) auto
  then have "\<exists>ks. inorder_from_root rt keys (int i) (int j) = Some (Inr ks) \<and> length ks = j + 1 - i"
    by (simp del: upt_Suc)
  moreover have "\<exists>ks. postorder_from_root rt keys (int i) (int j) = Some (Inr ks) \<and> length ks = j + 1 - i"
    using rng len assms(2-4) by (intro postorder_of_tree_table) auto
  ultimately show ?thesis using first by blast
qed

theorem roots_within_interval_witness:
  "\<exists>r. tget [[Some 0, Some 0, Some 0, Some 0], [Some 0, Some 1, Some 1, Some 0],
              [Some 0, Some 0, Some 2, Some 0], [Some 0, Some 0, Some 0, Some 0]] 1 2 = Some (int r)
     \<and> 1 \<le> r \<and> r \<le> 2"
  using roots_within_interval [OF run_two_keys [of "''a''" "''b''"], of 1 2] by auto

subsection \<open>C4: ties go to the leftmost root\<close>

lemma custo_final:
  assumes "optimal_bst p q keys = Inr (e, w, rt)" and "1 \<le> i" "i \<le> r" "r \<le> j" "j \<le> length p"
  shows "custo e w i j r = Fin (cand p q i j r)"
proof -
  have "tget e i (r - 1) = Fin (opt_cost p q i (r - 1))"
    using assms by (intro optimal_bst_cells(1)) auto
  moreover have "tget e (r + 1) j = Fin (opt_cost p q (r + 1) j)"
    using assms by (intro optimal_bst_cells(1)) auto
  moreover have "tget w i j = Fin (weight_sum p q i j)"
    using assms by (intro optimal_bst_cells(2)) auto
  ultimately show ?thesis by (simp add: custo_def cand_def)
qed

text \<open>
  C4. The table builder breaks ties toward the leftmost candidate: for every non-empty
  interval \<open>[i, j]\<close> the cell \<^verbatim>\<open>root[i][j]\<close> holds an \<open>r\<close> in \<open>i..j\<close> whose cost
  \<^verbatim>\<open>e[i][r-1] + e[r+1][j] + w[i][j]\<close> (read from the returned tables) is the value of
  \<^verbatim>\<open>e[i][j]\<close>, no candidate in \<open>i..j\<close> is strictly cheaper, and every candidate to the left
  of \<open>r\<close> is strictly more expensive. In particular, for \<open>p = [0.5, 0.5]\<close> and
  \<open>q = [0, 0, 0]\<close>, \<^verbatim>\<open>root[1][2] == 1\<close>.
\<close>

theorem leftmost_minimal_root:
  "(optimal_bst p q keys = Inr (e, w, rt) \<and> 1 \<le> i \<and> i \<le> j \<and> j \<le> length p \<longrightarrow>
      (\<exists>r. tget rt i j = Some (int r) \<and> i \<le> r \<and> r \<le> j \<and> tget e i j = custo e w i j r
         \<and> (\<forall>r' \<in> {i..j}. \<not> fl_less (custo e w i j r') (custo e w i j r))
         \<and> (\<forall>r' \<in> {i..<r}. fl_less (custo e w i j r) (custo e w i j r'))))
   \<and> (\<exists>e2 w2 rt2. optimal_bst [1 / 2, 1 / 2] [0, 0, 0] [k1, k2] = Inr (e2, w2, rt2)
         \<and> tget rt2 1 2 = Some 1)"
proof (intro conjI impI)
  assume asm: "optimal_bst p q keys = Inr (e, w, rt) \<and> 1 \<le> i \<and> i \<le> j \<and> j \<le> length p"
  then have run: "optimal_bst p q keys = Inr (e, w, rt)" and ij: "1 \<le> i" "i \<le> j" "j \<le> length p"
    by simp_all
  define r where "r = opt_root p q i j"
  have r: "i \<le> r" "r \<le> j" and c: "cand p q i j r = opt_cost p q i j"
    and less: "\<And>r'. i \<le> r' \<Longrightarrow> r' < r \<Longrightarrow> opt_cost p q i j < cand p q i j r'"
    unfolding r_def using opt_root_props [OF ij(1,2)] by auto
  have cu: "custo e w i j r' = Fin (cand p q i j r')" if "i \<le> r'" "r' \<le> j" for r'
    using run ij(1) that ij(3) by (rule custo_final)
  have "tget rt i j = Some (int r)"
    unfolding r_def using run ij by (intro optimal_bst_cells) auto
  moreover have "tget e i j = custo e w i j r"
    using optimal_bst_cells(1) [OF run, of i j] ij cu [OF r] c by simp
  moreover have "\<forall>r' \<in> {i..j}. \<not> fl_less (custo e w i j r') (custo e w i j r)"
  proof
    fix r' assume "r' \<in> {i..j}"
    then have r': "i \<le> r'" "r' \<le> j" by simp_all
    have "opt_cost p q i j \<le> cand p q i j r'" using ij(1) r' by (rule opt_cost_le_cand)
    then show "\<not> fl_less (custo e w i j r') (custo e w i j r)"
      using cu [OF r'] cu [OF r] c by simp
  qed
  moreover have "\<forall>r' \<in> {i..<r}. fl_less (custo e w i j r) (custo e w i j r')"
  proof
    fix r' assume "r' \<in> {i..<r}"
    then have r': "i \<le> r'" "r' < r" by simp_all
    then have "r' \<le> j" using r by simp
    then show "fl_less (custo e w i j r) (custo e w i j r')"
      using cu [OF r'(1)] cu [OF r] c less [OF r'] by simp
  qed
  ultimately show "\<exists>r. tget rt i j = Some (int r) \<and> i \<le> r \<and> r \<le> j \<and> tget e i j = custo e w i j r
         \<and> (\<forall>r' \<in> {i..j}. \<not> fl_less (custo e w i j r') (custo e w i j r))
         \<and> (\<forall>r' \<in> {i..<r}. fl_less (custo e w i j r) (custo e w i j r'))"
    using r by blast
next
  show "\<exists>e2 w2 rt2. optimal_bst [1 / 2, 1 / 2] [0, 0, 0] [k1, k2] = Inr (e2, w2, rt2)
         \<and> tget rt2 1 2 = Some 1"
    by (simp add: run_two_keys tget_def)
qed

theorem leftmost_minimal_root_witness:
  "\<exists>r. tget [[Some 0, Some 0, Some 0, Some 0], [Some 0, Some 1, Some 1, Some 0],
              [Some 0, Some 0, Some 2, Some 0], [Some 0, Some 0, Some 0, Some 0]] 1 2 = Some (int r)
     \<and> 1 \<le> r \<and> r \<le> 2"
  using leftmost_minimal_root [of "[1 / 2, 1 / 2]" "[0, 0, 0]" "[''a'', ''b'']" _ _ _ 1 2 "''a''" "''b''"]
    run_two_keys [of "''a''" "''b''"]
  by auto

subsection \<open>C9: rescaling the probabilities\<close>






subsection \<open>C1: the cost table holds the minimum expected cost\<close>

text \<open>
  \<open>is_bst i j\<close> holds of exactly the trees whose keys, read in order, are \<open>i, ..., j\<close>
  and whose leaves, read in order, are the gaps \<open>i - 1, ..., j\<close>.
\<close>

lemma is_bst_inorder:
  "is_bst i j t \<Longrightarrow> 1 \<le> i \<Longrightarrow> inorder_keys t = [i..<Suc j] \<and> inorder_gaps t = [i - 1..<Suc j]"
proof (induction t arbitrary: i j)
  case (Gap g)
  then show ?case by auto
next
  case (Key l k r)
  then have k: "i \<le> k" "k \<le> j" and l: "is_bst i (k - 1) l" and r: "is_bst (k + 1) j r"
    by simp_all
  have S: "Suc (k - 1) = k" using k Key.prems(2) by simp
  have "inorder_keys l = [i..<k]" "inorder_gaps l = [i - 1..<k]"
    using Key.IH(1) [OF l Key.prems(2)] S by simp_all
  moreover have "inorder_keys r = [Suc k..<Suc j]" "inorder_gaps r = [k..<Suc j]"
    using Key.IH(2) [OF r] by simp_all
  moreover have "[i..<Suc j] = [i..<k] @ [k] @ [Suc k..<Suc j]"
    using k by (rule interval_split)
  moreover have "[i - 1..<Suc j] = [i - 1..<k] @ [k..<Suc j]"
  proof -
    obtain d where d: "k = (i - 1) + d" using k(1) by (metis le_iff_add diff_le_self le_trans)
    obtain d' where d': "Suc j = k + d'" using k(2) by (metis le_Suc_eq le_iff_add)
    show ?thesis unfolding d' unfolding d by (rule upt_add_eq_append) simp
  qed
  ultimately show ?case by simp
qed

text \<open>Conversely, a tree with these two in-order sequences is such a search tree.\<close>

lemma length_inorder_gaps: "length (inorder_gaps t) = Suc (length (inorder_keys t))"
  by (induction t) simp_all

lemma inorder_is_bst:
  "inorder_keys t = [i..<Suc j] \<Longrightarrow> inorder_gaps t = [i - 1..<Suc j] \<Longrightarrow> 1 \<le> i \<Longrightarrow> i \<le> j + 1
     \<Longrightarrow> is_bst i j t"
proof (induction t arbitrary: i j)
  case (Gap g)
  from Gap.prems(1) have "[i..<Suc j] = []" by (simp del: upt_Suc)
  then have "Suc j \<le> i" by (simp del: upt_Suc)
  with Gap.prems(4) have i: "i = j + 1" by simp
  have "[g] = [j..<Suc j]" using Gap.prems(2) unfolding i by (simp del: upt_Suc)
  then have "g = j" by simp
  with i show ?case by simp
next
  case (Key l k r)
  define m where "m = length (inorder_keys l)"
  have keys: "inorder_keys l @ k # inorder_keys r = [i..<Suc j]" using Key.prems(1) by simp
  then have kl: "inorder_keys l = take m [i..<Suc j]" and kr: "k # inorder_keys r = drop m [i..<Suc j]"
    unfolding m_def by (simp_all add: append_eq_conv_conj)
  have kr': "k # inorder_keys r = [i + m..<Suc j]" using kr by (simp only: drop_upt)
  then have lt: "i + m < Suc j" by (cases "i + m < Suc j") auto
  then have "[i + m..<Suc j] = (i + m) # [Suc (i + m)..<Suc j]" by (rule upt_conv_Cons)
  with kr' have k: "k = i + m" and keys_r: "inorder_keys r = [Suc k..<Suc j]" by simp_all
  have keys_l: "inorder_keys l = [i..<k]"
    unfolding kl k using lt by (intro take_upt) simp
  have gaps: "inorder_gaps l @ inorder_gaps r = [i - 1..<Suc j]" using Key.prems(2) by simp
  have lg: "length (inorder_gaps l) = Suc m" unfolding m_def by (rule length_inorder_gaps)
  have gl: "inorder_gaps l = take (Suc m) [i - 1..<Suc j]"
    and gr: "inorder_gaps r = drop (Suc m) [i - 1..<Suc j]"
    using gaps lg by (simp_all add: append_eq_conv_conj)
  have im: "i - 1 + Suc m = k" using Key.prems(3) k by simp
  have "take (Suc m) [i - 1..<Suc j] = [i - 1..<i - 1 + Suc m]"
    using lt Key.prems(3) by (intro take_upt) simp
  then have gaps_l: "inorder_gaps l = [i - 1..<k]" unfolding gl im .
  have gaps_r: "inorder_gaps r = [k..<Suc j]" unfolding gr drop_upt im ..
  have S: "Suc (k - 1) = k" using k Key.prems(3) by simp
  have "is_bst i (k - 1) l"
    using keys_l gaps_l Key.prems(3) k S by (intro Key.IH(1)) simp_all
  moreover have "is_bst (k + 1) j r"
    using keys_r gaps_r lt k by (intro Key.IH(2)) simp_all
  ultimately show ?case using k lt by simp
qed

lemma is_bst_iff_inorder:
  assumes "1 \<le> i" "i \<le> j + 1"
  shows "is_bst i j t \<longleftrightarrow> inorder_keys t = [i..<Suc j] \<and> inorder_gaps t = [i - 1..<Suc j]"
  using assms is_bst_inorder [of i j t] inorder_is_bst [of t i j] by blast

lemma cost_at_Suc: "cost_at p q (Suc d) t = cost_at p q d t + tweight p q t"
  by (induction t arbitrary: d) (simp_all add: algebra_simps)

lemma tweight_weight_sum: "is_bst i j t \<Longrightarrow> 1 \<le> i \<Longrightarrow> tweight p q t = weight_sum p q i j"
proof (induction t arbitrary: i j)
  case (Gap g)
  then have "i - 1 = j" "g = j" by simp_all
  then show ?case using weight_sum_empty [OF Gap.prems(2), of p q] by simp
next
  case (Key l k r)
  then have k: "i \<le> k" "k \<le> j" and l: "is_bst i (k - 1) l" and r: "is_bst (k + 1) j r"
    by simp_all
  have "tweight p q l = weight_sum p q i (k - 1)" using l Key.prems(2) by (rule Key.IH(1))
  moreover have "tweight p q r = weight_sum p q (k + 1) j" using r by (rule Key.IH(2)) simp
  ultimately show ?case using weight_sum_split [OF Key.prems(2) k, of p q] by simp
qed

lemma expected_cost_Key:
  assumes "is_bst i j (Key l k r)" "1 \<le> i"
  shows "expected_cost p q (Key l k r) = expected_cost p q l + expected_cost p q r + weight_sum p q i j"
proof -
  have "expected_cost p q (Key l k r)
      = expected_cost p q l + expected_cost p q r + tweight p q (Key l k r)"
    using cost_at_Suc [of p q 0 l] cost_at_Suc [of p q 0 r] by (simp add: expected_cost_def)
  then show ?thesis using tweight_weight_sum [OF assms, of p q] by simp
qed

lemma opt_cost_lower_bound:
  "is_bst i j t \<Longrightarrow> 1 \<le> i \<Longrightarrow> opt_cost p q i j \<le> expected_cost p q t"
proof (induction t arbitrary: i j)
  case (Gap g)
  then have "i - 1 = j" "g = j" by simp_all
  then show ?case using opt_cost_empty [OF Gap.prems(2), of p q] by (simp add: expected_cost_def)
next
  case (Key l k r)
  then have k: "i \<le> k" "k \<le> j" and l: "is_bst i (k - 1) l" and r: "is_bst (k + 1) j r"
    by simp_all
  have "opt_cost p q i (k - 1) \<le> expected_cost p q l" using l Key.prems(2) by (rule Key.IH(1))
  moreover have "opt_cost p q (k + 1) j \<le> expected_cost p q r" using r by (rule Key.IH(2)) simp
  moreover have "opt_cost p q i j \<le> cand p q i j k" using Key.prems(2) k by (rule opt_cost_le_cand)
  ultimately show ?case
    unfolding expected_cost_Key [OF Key.prems, of p q] by (simp add: cand_def)
qed

lemma opt_cost_attained:
  "1 \<le> i \<Longrightarrow> i \<le> j + 1 \<Longrightarrow> \<exists>t. is_bst i j t \<and> expected_cost p q t = opt_cost p q i j"
proof (induction "j + 1 - i" arbitrary: i j rule: less_induct)
  case less
  show ?case
  proof (cases "i \<le> j")
    case False
    then have j: "i = j + 1" "i - 1 = j" using less.prems by simp_all
    have "is_bst i j (Gap j)" using j by simp
    moreover have "expected_cost p q (Gap j) = opt_cost p q i j"
      using opt_cost_empty [OF less.prems(1), of p q] j by (simp add: expected_cost_def)
    ultimately show ?thesis by blast
  next
    case True
    define k where "k = opt_root p q i j"
    have k: "i \<le> k" "k \<le> j" and c: "cand p q i j k = opt_cost p q i j"
      unfolding k_def using opt_root_props [OF less.prems(1) True] by auto
    have "\<exists>t. is_bst i (k - 1) t \<and> expected_cost p q t = opt_cost p q i (k - 1)"
      using less.prems k by (intro less.hyps) auto
    then obtain l where l: "is_bst i (k - 1) l" "expected_cost p q l = opt_cost p q i (k - 1)"
      by blast
    have "\<exists>t. is_bst (k + 1) j t \<and> expected_cost p q t = opt_cost p q (k + 1) j"
      using less.prems k by (intro less.hyps) auto
    then obtain r where r: "is_bst (k + 1) j r" "expected_cost p q r = opt_cost p q (k + 1) j"
      by blast
    have bst: "is_bst i j (Key l k r)" using k l r by simp
    have "expected_cost p q (Key l k r) = opt_cost p q i j"
      unfolding expected_cost_Key [OF bst less.prems(1)] c [symmetric] using l r
      by (simp add: cand_def)
    with bst show ?thesis by blast
  qed
qed

text \<open>
  C1 (amended). For every input with \<^verbatim>\<open>len(q) == len(p) + 1\<close> and
  \<^verbatim>\<open>len(keys) == len(p) = n\<close>, \<^verbatim>\<open>optimal_bst\<close> returns, and the value \<^verbatim>\<open>e[1][n]\<close> is the minimum,
  over all binary search trees on the keys \<open>1..n\<close>, of the expected search cost in
  which a key at depth \<open>d\<close> counts \<open>p[k] * (d + 1)\<close> and a gap leaf at depth \<open>d\<close> counts
  \<open>q[g] * (d + 1)\<close>: no tree is cheaper and some tree has exactly this cost.
\<close>

theorem optimal_bst_minimum_expected_cost:
  assumes "length keys = length p" "length q = length p + 1"
  shows "\<exists>e w rt m. optimal_bst p q keys = Inr (e, w, rt) \<and> tget e 1 (length p) = Fin m
     \<and> (\<forall>t. is_bst 1 (length p) t \<longrightarrow> m \<le> expected_cost p q t)
     \<and> (\<exists>t. is_bst 1 (length p) t \<and> expected_cost p q t = m)"
proof -
  obtain e w rt where run: "optimal_bst p q keys = Inr (e, w, rt)"
    using optimal_bst_defined [of keys p q] assms by auto
  have "tget e 1 (length p) = Fin (opt_cost p q 1 (length p))"
    using run by (rule optimal_bst_cells) simp_all
  moreover have "\<forall>t. is_bst 1 (length p) t \<longrightarrow> opt_cost p q 1 (length p) \<le> expected_cost p q t"
    by (simp add: opt_cost_lower_bound)
  moreover have "\<exists>t. is_bst 1 (length p) t \<and> expected_cost p q t = opt_cost p q 1 (length p)"
    by (rule opt_cost_attained) simp_all
  ultimately show ?thesis using run by blast
qed

theorem optimal_bst_minimum_expected_cost_witness:
  "length [''k''] = length [1 / 2 :: real] \<and> length [1 / 4, 1 / 4 :: real] = length [1 / 2 :: real] + 1
   \<and> (\<exists>e w rt m. optimal_bst [1 / 2] [1 / 4, 1 / 4] [''k''] = Inr (e, w, rt)
        \<and> tget e 1 (length [1 / 2 :: real]) = Fin m
        \<and> (\<forall>t. is_bst 1 (length [1 / 2 :: real]) t \<longrightarrow> m \<le> expected_cost [1 / 2] [1 / 4, 1 / 4] t)
        \<and> (\<exists>t. is_bst 1 (length [1 / 2 :: real]) t \<and> expected_cost [1 / 2] [1 / 4, 1 / 4] t = m))"
  using optimal_bst_minimum_expected_cost [of "[''k'']" "[1 / 2]" "[1 / 4, 1 / 4]"] by simp

text \<open>
  C1 (as stated) counts a gap leaf at depth \<open>d\<close> as \<open>q[g] * d\<close>. With one key,
  \<open>p = [1/2]\<close> and \<open>q = [1/4, 1/4]\<close>, the code returns \<^verbatim>\<open>e[1][1] = 3/2\<close>, while the only
  tree has cost \<open>1/2 * 1 + 1/4 * 1 + 1/4 * 1 = 1\<close> under that reading.
\<close>

theorem gap_depth_cost_counterexample:
  "optimal_bst [1 / 2] [1 / 4, 1 / 4] [''k''] =
     Inr ([[Fin 0, Fin 0, Fin 0], [Fin (1 / 4), Fin (3 / 2), Fin 0], [Fin 0, Fin (1 / 4), Fin 0]],
          [[Fin 0, Fin 0, Fin 0], [Fin (1 / 4), Fin 1, Fin 0], [Fin 0, Fin (1 / 4), Fin 0]],
          [[Some 0, Some 0, Some 0], [Some 0, Some 1, Some 0], [Some 0, Some 0, Some 0]])
   \<and> tget [[Fin 0, Fin 0, Fin 0], [Fin (1 / 4), Fin (3 / 2), Fin 0], [Fin 0, Fin (1 / 4), Fin 0]]
        1 (length [1 / 2 :: real]) = Fin (3 / 2)
   \<and> is_bst 1 (length [1 / 2 :: real]) (Key (Gap 0) 1 (Gap 1))
   \<and> gap_depth_cost [1 / 2] [1 / 4, 1 / 4] (Key (Gap 0) 1 (Gap 1)) = 1
   \<and> (1 :: real) < 3 / 2"
  by (simp add: run_one_key tget_def gap_depth_cost_def)

subsection \<open>C2: the built-in example\<close>

lemma example_sum: "sum_list example_p + sum_list example_q = 11 / 10"
  by (simp add: example_p_def example_q_def)

lemma example_normalize:
  "normalize example_p example_q =
     Inr ([3181818182 / 10 ^ 10, 2272727273 / 10 ^ 10, 2272727273 / 10 ^ 10, 1363636364 / 10 ^ 10],
          [181818182 / 10 ^ 10, 181818182 / 10 ^ 10, 181818182 / 10 ^ 10, 181818182 / 10 ^ 10,
           181818182 / 10 ^ 10])"
  by (simp add: normalize_def example_p_def example_q_def py_round_def Let_def)

lemma example_validate:
  "validate_probabilities
     [3181818182 / 10 ^ 10, 2272727273 / 10 ^ 10, 2272727273 / 10 ^ 10, 1363636364 / 10 ^ 10]
     [181818182 / 10 ^ 10, 181818182 / 10 ^ 10, 181818182 / 10 ^ 10, 181818182 / 10 ^ 10,
      181818182 / 10 ^ 10] = Inr ()"
  by (simp add: validate_probabilities_def Let_def)


lemma example_tables_raw:
  "optimal_bst example_p example_q example_keys =
     Inr ([[Fin 0, Fin 0, Fin 0, Fin 0, Fin 0, Fin 0],
           [Fin (1 / 50), Fin (43 / 100), Fin (101 / 100), Fin (169 / 100), Fin (56 / 25), Fin 0],
           [Fin 0, Fin (1 / 50), Fin (33 / 100), Fin (91 / 100), Fin (129 / 100), Fin 0],
           [Fin 0, Fin 0, Fin (1 / 50), Fin (33 / 100), Fin (71 / 100), Fin 0],
           [Fin 0, Fin 0, Fin 0, Fin (1 / 50), Fin (23 / 100), Fin 0],
           [Fin 0, Fin 0, Fin 0, Fin 0, Fin (1 / 50), Fin 0]],
          [[Fin 0, Fin 0, Fin 0, Fin 0, Fin 0, Fin 0],
           [Fin (1 / 50), Fin (39 / 100), Fin (33 / 50), Fin (93 / 100), Fin (11 / 10), Fin 0],
           [Fin 0, Fin (1 / 50), Fin (29 / 100), Fin (14 / 25), Fin (73 / 100), Fin 0],
           [Fin 0, Fin 0, Fin (1 / 50), Fin (29 / 100), Fin (23 / 50), Fin 0],
           [Fin 0, Fin 0, Fin 0, Fin (1 / 50), Fin (19 / 100), Fin 0],
           [Fin 0, Fin 0, Fin 0, Fin 0, Fin (1 / 50), Fin 0]],
          [[Some 0, Some 0, Some 0, Some 0, Some 0, Some 0],
           [Some 0, Some 1, Some 1, Some 2, Some 2, Some 0],
           [Some 0, Some 0, Some 2, Some 2, Some 3, Some 0],
           [Some 0, Some 0, Some 0, Some 3, Some 3, Some 0],
           [Some 0, Some 0, Some 0, Some 0, Some 4, Some 0],
           [Some 0, Some 0, Some 0, Some 0, Some 0, Some 0]])"
  by (simp add: example_p_def example_q_def example_keys_def dp_defs upt_rec Let_def)

lemma example_tables:
  "optimal_bst
     [3181818182 / 10 ^ 10, 2272727273 / 10 ^ 10, 2272727273 / 10 ^ 10, 1363636364 / 10 ^ 10]
     [181818182 / 10 ^ 10, 181818182 / 10 ^ 10, 181818182 / 10 ^ 10, 181818182 / 10 ^ 10,
      181818182 / 10 ^ 10]
     example_keys =
     Inr ([[Fin 0, Fin 0, Fin 0, Fin 0, Fin 0, Fin 0],
           [Fin (90909091 / 5000000000), Fin (390909091 / 1000000000), Fin (1147727273 / 1250000000), Fin (15363636367 / 10000000000), Fin (20363636369 / 10000000000), Fin 0],
           [Fin 0, Fin (90909091 / 5000000000), Fin (3000000001 / 10000000000), Fin (330909091 / 400000000), Fin (11727272731 / 10000000000), Fin 0],
           [Fin 0, Fin 0, Fin (90909091 / 5000000000), Fin (3000000001 / 10000000000), Fin (6454545457 / 10000000000), Fin 0],
           [Fin 0, Fin 0, Fin 0, Fin (90909091 / 5000000000), Fin (522727273 / 2500000000), Fin 0],
           [Fin 0, Fin 0, Fin 0, Fin 0, Fin (90909091 / 5000000000), Fin 0]],
          [[Fin 0, Fin 0, Fin 0, Fin 0, Fin 0, Fin 0],
           [Fin (90909091 / 5000000000), Fin (1772727273 / 5000000000), Fin (6000000001 / 10000000000), Fin (528409091 / 625000000), Fin (5000000001 / 5000000000), Fin 0],
           [Fin 0, Fin (90909091 / 5000000000), Fin (2636363637 / 10000000000), Fin (1272727273 / 2500000000), Fin (3318181819 / 5000000000), Fin 0],
           [Fin 0, Fin 0, Fin (90909091 / 5000000000), Fin (2636363637 / 10000000000), Fin (4181818183 / 10000000000), Fin 0],
           [Fin 0, Fin 0, Fin 0, Fin (90909091 / 5000000000), Fin (215909091 / 1250000000), Fin 0],
           [Fin 0, Fin 0, Fin 0, Fin 0, Fin (90909091 / 5000000000), Fin 0]],
          [[Some 0, Some 0, Some 0, Some 0, Some 0, Some 0],
           [Some 0, Some 1, Some 1, Some 2, Some 2, Some 0],
           [Some 0, Some 0, Some 2, Some 2, Some 3, Some 0],
           [Some 0, Some 0, Some 0, Some 3, Some 3, Some 0],
           [Some 0, Some 0, Some 0, Some 0, Some 4, Some 0],
           [Some 0, Some 0, Some 0, Some 0, Some 0, Some 0]])"
  by (simp add: example_keys_def dp_defs upt_rec Let_def)


lemma example_traversals:
  "preorder_from_root
     [[Some 0, Some 0, Some 0, Some 0, Some 0, Some 0],
      [Some 0, Some 1, Some 1, Some 2, Some 2, Some 0],
      [Some 0, Some 0, Some 2, Some 2, Some 3, Some 0],
      [Some 0, Some 0, Some 0, Some 3, Some 3, Some 0],
      [Some 0, Some 0, Some 0, Some 0, Some 4, Some 0],
      [Some 0, Some 0, Some 0, Some 0, Some 0, Some 0]]
     example_keys 1 4 = Some (Inr [''Bruno'', ''Ana'', ''Carla'', ''Diego''])"
  "inorder_from_root
     [[Some 0, Some 0, Some 0, Some 0, Some 0, Some 0],
      [Some 0, Some 1, Some 1, Some 2, Some 2, Some 0],
      [Some 0, Some 0, Some 2, Some 2, Some 3, Some 0],
      [Some 0, Some 0, Some 0, Some 3, Some 3, Some 0],
      [Some 0, Some 0, Some 0, Some 0, Some 4, Some 0],
      [Some 0, Some 0, Some 0, Some 0, Some 0, Some 0]]
     example_keys 1 4 = Some (Inr [''Ana'', ''Bruno'', ''Carla'', ''Diego''])"
  "postorder_from_root
     [[Some 0, Some 0, Some 0, Some 0, Some 0, Some 0],
      [Some 0, Some 1, Some 1, Some 2, Some 2, Some 0],
      [Some 0, Some 0, Some 2, Some 2, Some 3, Some 0],
      [Some 0, Some 0, Some 0, Some 3, Some 3, Some 0],
      [Some 0, Some 0, Some 0, Some 0, Some 4, Some 0],
      [Some 0, Some 0, Some 0, Some 0, Some 0, Some 0]]
     example_keys 1 4 = Some (Inr [''Ana'', ''Diego'', ''Carla'', ''Bruno''])"
  by (simp_all add: preorder_from_root.simps inorder_from_root.simps postorder_from_root.simps
      root_at_def py_index_def example_keys_def)

lemma example_cost_cell:
  "tget
     [[Fin 0, Fin 0, Fin 0, Fin 0, Fin 0, Fin 0],
      [Fin (90909091 / 5000000000), Fin (390909091 / 1000000000), Fin (1147727273 / 1250000000), Fin (15363636367 / 10000000000), Fin (20363636369 / 10000000000), Fin 0],
      [Fin 0, Fin (90909091 / 5000000000), Fin (3000000001 / 10000000000), Fin (330909091 / 400000000), Fin (11727272731 / 10000000000), Fin 0],
      [Fin 0, Fin 0, Fin (90909091 / 5000000000), Fin (3000000001 / 10000000000), Fin (6454545457 / 10000000000), Fin 0],
      [Fin 0, Fin 0, Fin 0, Fin (90909091 / 5000000000), Fin (522727273 / 2500000000), Fin 0],
      [Fin 0, Fin 0, Fin 0, Fin 0, Fin (90909091 / 5000000000), Fin 0]]
     1 4 = Fin (20363636369 / 10 ^ 10)"
  by (simp add: tget_def)

lemma example_main:
  "main = Some (Inr \<lparr>cost_dp = Fin (20363636369 / 10 ^ 10),
       roots = [[Some 0, Some 0, Some 0, Some 0, Some 0, Some 0],
             [Some 0, Some 1, Some 1, Some 2, Some 2, Some 0],
             [Some 0, Some 0, Some 2, Some 2, Some 3, Some 0],
             [Some 0, Some 0, Some 0, Some 3, Some 3, Some 0],
             [Some 0, Some 0, Some 0, Some 0, Some 4, Some 0],
             [Some 0, Some 0, Some 0, Some 0, Some 0, Some 0]],
       pre_order = [''Bruno'', ''Ana'', ''Carla'', ''Diego''],
       in_order = [''Ana'', ''Bruno'', ''Carla'', ''Diego''],
       post_order = [''Ana'', ''Diego'', ''Carla'', ''Bruno'']\<rparr>)"
proof -
  have len: "length example_keys = 4" by (simp add: example_keys_def)
  have four: "int 4 = 4" by simp
  show ?thesis
    unfolding main_def run_main_def
    by (simp only: example_normalize example_validate example_tables example_traversals
        example_cost_cell len four Let_def sum.case prod.case Option.bind.simps)
qed

text \<open>
  C2 (amended). The built-in example \<open>keys = [Ana, Bruno, Carla, Diego]\<close>,
  \<open>p = [0.35, 0.25, 0.25, 0.15]\<close>, \<open>q = [0.02] * 5\<close> sums to 1.10, not to 1.0, so \<^verbatim>\<open>main\<close>
  rescales it by \<open>1 / 1.1\<close> (rounded to 10 decimals). The run then yields
  \<^verbatim>\<open>e[1][4] = 2.0363636369\<close>, \<^verbatim>\<open>root[1][4] == 2\<close> (the key "Bruno") and the in-order
  traversal exactly \<open>[Ana, Bruno, Carla, Diego]\<close>. On the inputs as given, without the
  rescaling, \<^verbatim>\<open>optimal_bst\<close> yields \<^verbatim>\<open>e[1][4] = 2.24\<close> and the same root table.
\<close>

theorem example_run:
  "sum_list example_p + sum_list example_q = 11 / 10
   \<and> main = Some (Inr \<lparr>cost_dp = Fin (20363636369 / 10 ^ 10),
       roots = [[Some 0, Some 0, Some 0, Some 0, Some 0, Some 0],
             [Some 0, Some 1, Some 1, Some 2, Some 2, Some 0],
             [Some 0, Some 0, Some 2, Some 2, Some 3, Some 0],
             [Some 0, Some 0, Some 0, Some 3, Some 3, Some 0],
             [Some 0, Some 0, Some 0, Some 0, Some 4, Some 0],
             [Some 0, Some 0, Some 0, Some 0, Some 0, Some 0]],
       pre_order = [''Bruno'', ''Ana'', ''Carla'', ''Diego''],
       in_order = [''Ana'', ''Bruno'', ''Carla'', ''Diego''],
       post_order = [''Ana'', ''Diego'', ''Carla'', ''Bruno'']\<rparr>)
   \<and> tget [[Some 0, Some 0, Some 0, Some 0, Some 0, Some 0],
             [Some 0, Some 1, Some 1, Some 2, Some 2, Some 0],
             [Some 0, Some 0, Some 2, Some 2, Some 3, Some 0],
             [Some 0, Some 0, Some 0, Some 3, Some 3, Some 0],
             [Some 0, Some 0, Some 0, Some 0, Some 4, Some 0],
             [Some 0, Some 0, Some 0, Some 0, Some 0, Some 0]] 1 4 = (Some 2 :: int option)
   \<and> example_keys ! (2 - 1) = ''Bruno''
   \<and> optimal_bst example_p example_q example_keys =
     Inr ([[Fin 0, Fin 0, Fin 0, Fin 0, Fin 0, Fin 0],
           [Fin (1 / 50), Fin (43 / 100), Fin (101 / 100), Fin (169 / 100), Fin (56 / 25), Fin 0],
           [Fin 0, Fin (1 / 50), Fin (33 / 100), Fin (91 / 100), Fin (129 / 100), Fin 0],
           [Fin 0, Fin 0, Fin (1 / 50), Fin (33 / 100), Fin (71 / 100), Fin 0],
           [Fin 0, Fin 0, Fin 0, Fin (1 / 50), Fin (23 / 100), Fin 0],
           [Fin 0, Fin 0, Fin 0, Fin 0, Fin (1 / 50), Fin 0]],
          [[Fin 0, Fin 0, Fin 0, Fin 0, Fin 0, Fin 0],
           [Fin (1 / 50), Fin (39 / 100), Fin (33 / 50), Fin (93 / 100), Fin (11 / 10), Fin 0],
           [Fin 0, Fin (1 / 50), Fin (29 / 100), Fin (14 / 25), Fin (73 / 100), Fin 0],
           [Fin 0, Fin 0, Fin (1 / 50), Fin (29 / 100), Fin (23 / 50), Fin 0],
           [Fin 0, Fin 0, Fin 0, Fin (1 / 50), Fin (19 / 100), Fin 0],
           [Fin 0, Fin 0, Fin 0, Fin 0, Fin (1 / 50), Fin 0]],
          [[Some 0, Some 0, Some 0, Some 0, Some 0, Some 0],
           [Some 0, Some 1, Some 1, Some 2, Some 2, Some 0],
           [Some 0, Some 0, Some 2, Some 2, Some 3, Some 0],
           [Some 0, Some 0, Some 0, Some 3, Some 3, Some 0],
           [Some 0, Some 0, Some 0, Some 0, Some 4, Some 0],
           [Some 0, Some 0, Some 0, Some 0, Some 0, Some 0]])"
proof (intro conjI)
  show "sum_list example_p + sum_list example_q = 11 / 10" by (rule example_sum)
  show "example_keys ! (2 - 1) = ''Bruno''" by (simp add: example_keys_def)
qed (simp_all only: example_main example_tables_raw, simp_all add: tget_def)

text \<open>
  C2 (as stated): the inputs sum to 1.0, \<^verbatim>\<open>e[1][4]\<close> is about 1.34, and \<^verbatim>\<open>root[1][4]\<close> is 1
  (the key "Ana"). None of the three holds.
\<close>

theorem example_expected_values_counterexample:
  "sum_list example_p + sum_list example_q \<noteq> 1
   \<and> map_option (map_sum id cost_dp) main = Some (Inr (Fin (20363636369 / 10 ^ 10)))
   \<and> \<not> \<bar>20363636369 / 10 ^ 10 - 134 / 100\<bar> \<le> (1 / 2 :: real)
   \<and> map_option (map_sum id roots) main = Some (Inr
       [[Some 0, Some 0, Some 0, Some 0, Some 0, Some 0],
             [Some 0, Some 1, Some 1, Some 2, Some 2, Some 0],
             [Some 0, Some 0, Some 2, Some 2, Some 3, Some 0],
             [Some 0, Some 0, Some 0, Some 3, Some 3, Some 0],
             [Some 0, Some 0, Some 0, Some 0, Some 4, Some 0],
             [Some 0, Some 0, Some 0, Some 0, Some 0, Some 0]])
   \<and> tget [[Some 0, Some 0, Some 0, Some 0, Some 0, Some 0],
             [Some 0, Some 1, Some 1, Some 2, Some 2, Some 0],
             [Some 0, Some 0, Some 2, Some 2, Some 3, Some 0],
             [Some 0, Some 0, Some 0, Some 3, Some 3, Some 0],
             [Some 0, Some 0, Some 0, Some 0, Some 4, Some 0],
             [Some 0, Some 0, Some 0, Some 0, Some 0, Some 0]] 1 4 \<noteq> (Some 1 :: int option)"
  by (simp add: example_sum example_main tget_def)

end
